theory Spec2Isabelle
  imports Main "HOL-Library.Word"
begin

unbundle bit_operations_syntax

section \<open>Bytes and host-order integers\<close>

text \<open>
  Both backends put integers on the wire in host byte order. The hosts are x86
  machines, so a \<open>w\<close>-bit integer occupies \<open>w div 8\<close> bytes, least significant first.
  \<open>le_bytes n w\<close> is the memory image of the low \<open>n\<close> bytes of \<open>w\<close>, \<open>le_word\<close> reads
  an integer back from such an image.
\<close>

type_synonym byte = "8 word"
type_synonym u16 = "16 word"
type_synonym u32 = "32 word"
type_synonym u64 = "64 word"

fun le_bytes :: "nat \<Rightarrow> 'a::len word \<Rightarrow> byte list" where
  "le_bytes 0 w = []"
| "le_bytes (Suc n) w = ucast w # le_bytes n (drop_bit 8 w)"

fun le_word :: "byte list \<Rightarrow> 'a::len word" where
  "le_word [] = 0"
| "le_word (b # bs) = ucast b OR push_bit 8 (le_word bs)"

text \<open>Writing \<open>bs\<close> into a memory region \<open>m\<close> at byte offset \<open>off\<close> (what a read into
  \<open>base + off\<close> does to the region).\<close>

definition write_at :: "byte list \<Rightarrow> nat \<Rightarrow> byte list \<Rightarrow> byte list" where
  "write_at m off bs = take off m @ bs @ drop (off + length bs) m"

section \<open>The byte-stream transport (mTCP), as the queue sees it\<close>

text \<open>
  The mTCP stack is an external collaborator. A socket is modelled by the bytes that
  have arrived on it (\<open>rx\<close>), the bytes it has accepted for sending (\<open>tx\<close>), and, for
  each of \<open>mtcp_read\<close>, \<open>mtcp_writev\<close> and \<open>mtcp_accept\<close>, a plan: the outcomes of the
  coming calls, one event per call. \<open>Again\<close> is \<open>-1\<close> with \<open>errno = EAGAIN\<close>, \<open>Fail\<close>
  is \<open>-1\<close> with any other \<open>errno\<close>, \<open>Deliver k\<close> moves at most \<open>k\<close> bytes. When a plan
  is exhausted the transport moves as many bytes as it can, and a read on an empty
  stream would block. A plan of \<open>Deliver 1\<close> events is a stream that arrives one byte
  per call.
\<close>

datatype io_event = Again | Fail | Deliver nat

record sockaddr_in =
  sin_family :: u16
  sin_port :: u16
  sin_addr :: u32

datatype accept_event = AcceptAgain | AcceptFail | AcceptConn int sockaddr_in

record mtcp_sock =
  rx :: "byte list"
  rd_plan :: "io_event list"
  tx :: "byte list"
  wr_plan :: "io_event list"
  acc_plan :: "accept_event list"

datatype io_result = EAGAIN | EFAIL | Count "byte list"

definition mtcp_read :: "mtcp_sock \<Rightarrow> nat \<Rightarrow> io_result \<times> mtcp_sock" where
  "mtcp_read s n =
     (case rd_plan s of
        [] \<Rightarrow> (if rx s = [] then (EAGAIN, s)
               else (Count (take n (rx s)), s\<lparr>rx := drop n (rx s)\<rparr>))
      | Again # p \<Rightarrow> (EAGAIN, s\<lparr>rd_plan := p\<rparr>)
      | Fail # p \<Rightarrow> (EFAIL, s\<lparr>rd_plan := p\<rparr>)
      | Deliver k # p \<Rightarrow>
          (Count (take (min k n) (rx s)), s\<lparr>rx := drop (min k n) (rx s), rd_plan := p\<rparr>))"

definition mtcp_writev :: "mtcp_sock \<Rightarrow> byte list list \<Rightarrow> io_result \<times> mtcp_sock" where
  "mtcp_writev s iov =
     (case wr_plan s of
        [] \<Rightarrow> (Count (concat iov), s\<lparr>tx := tx s @ concat iov\<rparr>)
      | Again # p \<Rightarrow> (EAGAIN, s\<lparr>wr_plan := p\<rparr>)
      | Fail # p \<Rightarrow> (EFAIL, s\<lparr>wr_plan := p\<rparr>)
      | Deliver k # p \<Rightarrow>
          (Count (take k (concat iov)), s\<lparr>tx := tx s @ take k (concat iov), wr_plan := p\<rparr>))"

definition mtcp_accept :: "mtcp_sock \<Rightarrow> accept_event \<times> mtcp_sock" where
  "mtcp_accept s =
     (case acc_plan s of
        [] \<Rightarrow> (AcceptAgain, s)
      | e # p \<Rightarrow> (e, s\<lparr>acc_plan := p\<rparr>))"

section \<open>Stream backend: requests and the queue object\<close>

text \<open>
  A scatter-gather array is the list of its segments; a segment is its bytes, and its
  \<open>len\<close> field is their number. \<open>num_bufs\<close> is the number of segments.
\<close>

type_synonym sgarray = "byte list list"

type_synonym qtoken = u64

text \<open>
  Modelled from the spec: the struct \<open>PendingRequest\<close> is declared in
  \<open>mtcp-queue.h\<close>, which is not among the sources. Its fields are the ones the code of
  \<open>mtcp-queue.cc\<close> uses; \<open>header\<close> is the memory of the three 64-bit header words
  (24 bytes), into which a read may place any number of bytes. A new request is not
  done, has result 0, has consumed no bytes and owns no payload buffer.
\<close>

record PendingRequest =
  isDone :: bool
  res :: int
  header :: "byte list"
  buf :: "byte list option"
  num_bytes :: nat
  sga :: sgarray

definition new_request :: "sgarray \<Rightarrow> PendingRequest" where
  "new_request s =
     \<lparr>isDone = False, res = 0, header = replicate 24 0, buf = None, num_bytes = 0, sga = s\<rparr>"

definition header_word :: "PendingRequest \<Rightarrow> nat \<Rightarrow> u64" where
  "header_word r i = le_word (take 8 (drop (8 * i) (header r)))"

record MTCPQueue =
  qd :: int
  mtcp_qd :: int
  listening :: bool
  accepts :: "(int \<times> sockaddr_in) list"
  workQ :: "qtoken list"
  pending :: "qtoken \<rightharpoonup> PendingRequest"
  mtcp_evts :: u32

text \<open>
  An \<open>assert\<close> that fails aborts the process, and so does, as far as this model is
  concerned, a read outside a buffer or through a null pointer: these are outcomes of
  their own.
\<close>

datatype fault = AssertFailed | OutOfBounds | NullDeref

text \<open>Leaving a function early (\<open>return\<close>) versus falling through to its next
  statement.\<close>

datatype 'a flow = Return 'a | Continue 'a

subsection \<open>\<open>MTCPQueue::socket\<close>\<close>

text \<open>
  The process-wide environment: \<open>mtcp_env_initialized\<close> and the epoll descriptor.
  What \<open>mtcp_init\<close>, \<open>mtcp_epoll_create\<close> and \<open>mtcp_socket\<close> return is up to the
  stack, so these values are parameters.
\<close>

record mtcp_env =
  mtcp_env_initialized :: bool
  mtcp_ep :: int

definition mtcp_env_init :: "int \<Rightarrow> int \<Rightarrow> mtcp_env \<Rightarrow> int \<times> mtcp_env" where
  "mtcp_env_init init_ret ep e =
     (if ep < 0 then (-1, e\<lparr>mtcp_ep := ep\<rparr>)
      else (init_ret, e\<lparr>mtcp_ep := ep, mtcp_env_initialized := True\<rparr>))"

definition socket :: "int \<Rightarrow> int \<Rightarrow> int \<Rightarrow> mtcp_env \<Rightarrow> MTCPQueue \<Rightarrow> int \<times> mtcp_env \<times> MTCPQueue" where
  "socket init_ret ep sock_ret e q =
     (let e' = (if \<not> mtcp_env_initialized e then snd (mtcp_env_init init_ret ep e) else e)
      in (qd q, e', q\<lparr>mtcp_qd := sock_ret\<rparr>))"

subsection \<open>\<open>MTCPQueue::ProcessIncoming\<close>\<close>

text \<open>The accept step taken first on a listening queue. Only the would-block case
  returns; the two others mark the request done and fall through to the header read.\<close>

definition pi_accept ::
  "MTCPQueue \<Rightarrow> mtcp_sock \<Rightarrow> PendingRequest \<Rightarrow> (MTCPQueue \<times> mtcp_sock \<times> PendingRequest) flow" where
  "pi_accept q s r =
     (if listening q then
        (case mtcp_accept s of
           (AcceptAgain, s') \<Rightarrow> Return (q, s', r)
         | (AcceptFail, s') \<Rightarrow> Continue (q, s', r\<lparr>isDone := True, res := -1\<rparr>)
         | (AcceptConn newfd saddr, s') \<Rightarrow>
             Continue (q\<lparr>accepts := accepts q @ [(newfd, saddr)]\<rparr>, s',
                       r\<lparr>isDone := True, res := newfd\<rparr>))
      else Continue (q, s, r))"

text \<open>Reading the header: at most \<open>24 - num_bytes\<close> bytes, placed at offset
  \<open>num_bytes\<close> of the header.\<close>

definition pi_header :: "mtcp_sock \<Rightarrow> PendingRequest \<Rightarrow> (mtcp_sock \<times> PendingRequest) flow" where
  "pi_header s r =
     (if num_bytes r < 24 then
        (case mtcp_read s (24 - num_bytes r) of
           (EAGAIN, s') \<Rightarrow> Return (s', r)
         | (EFAIL, s') \<Rightarrow> Return (s', r\<lparr>isDone := True, res := -1\<rparr>)
         | (Count bs, s') \<Rightarrow>
             (let r' = r\<lparr>header := write_at (header r) (num_bytes r) bs,
                         num_bytes := num_bytes r + length bs\<rparr>
              in if num_bytes r' < 24 then Return (s', r') else Continue (s', r')))
      else Continue (s, r))"

text \<open>Reading the payload: at most \<open>dataLen - offset\<close> bytes, placed at \<open>offset\<close> of the
  payload buffer. \<open>dataLen\<close> is a word of the stream, so that the sum
  \<open>sizeof(req.header) + dataLen\<close> may wrap around in \<open>size_t\<close>: it is computed as a
  64-bit word.\<close>

definition pi_payload ::
  "nat \<Rightarrow> mtcp_sock \<Rightarrow> PendingRequest \<Rightarrow> (mtcp_sock \<times> PendingRequest) flow" where
  "pi_payload dataLen s r =
     (let offset = num_bytes r - 24 in
      if num_bytes r < unat (word_of_nat (24 + dataLen) :: u64) then
        (case mtcp_read s (dataLen - offset) of
           (EAGAIN, s') \<Rightarrow> Return (s', r)
         | (EFAIL, s') \<Rightarrow> Return (s', r\<lparr>isDone := True, res := -1\<rparr>)
         | (Count bs, s') \<Rightarrow>
             (let r' = r\<lparr>buf := map_option (\<lambda>m. write_at m offset bs) (buf r),
                         num_bytes := num_bytes r + length bs\<rparr>
              in if num_bytes r' < unat (word_of_nat (24 + dataLen) :: u64) then Return (s', r')
                 else Continue (s', r')))
      else Continue (s, r))"

text \<open>
  The loop that slices the payload into segments: \<open>n\<close> segments are taken from the
  bytes \<open>p\<close> at the cursor, each an 8-byte length cell and then that many body bytes.
  A length cell or a body that does not lie inside the payload buffer is
  \<open>OutOfBounds\<close>.
\<close>

fun fill_sga :: "nat \<Rightarrow> byte list \<Rightarrow> fault + sgarray" where
  "fill_sga 0 p = Inr []"
| "fill_sga (Suc n) p =
     (if length p < 8 then Inl OutOfBounds
      else let l = unat (le_word (take 8 p) :: u64); p' = drop 8 p
           in if length p' < l then Inl OutOfBounds
              else (case fill_sga n (drop l p') of
                      Inl e \<Rightarrow> Inl e
                    | Inr segs \<Rightarrow> Inr (take l p' # segs)))"

text \<open>
  The end of \<open>ProcessIncoming\<close>, once header and payload are complete. \<open>num_bufs\<close> is an
  \<open>int\<close> that receives the 64-bit word \<open>header[2]\<close>. The four assertions follow the
  loop. When \<open>num_bufs \<le> 0\<close> the loop does not run and the first assertion compares a
  length cell left over from before; whatever that comparison gives, the second
  assertion (\<open>num_bufs == 1\<close>) then fails, so the outcome is \<open>AssertFailed\<close>.
\<close>

definition pi_fill :: "nat \<Rightarrow> PendingRequest \<Rightarrow> fault + PendingRequest" where
  "pi_fill dataLen r =
     (let nb = sint (ucast (header_word r 2) :: u32) in
      if nb \<le> 0 then Inl AssertFailed
      else (case fill_sga (nat nb) (case buf r of None \<Rightarrow> [] | Some m \<Rightarrow> m) of
              Inl e \<Rightarrow> Inl e
            | Inr segs \<Rightarrow>
                (let len = sum_list (map length segs) in
                 if (word_of_nat (length (hd segs)) :: u64) \<noteq> word_of_nat dataLen - 8
                   then Inl AssertFailed
                 else if nb \<noteq> 1 then Inl AssertFailed
                 else if \<not> 0 < nb then Inl AssertFailed
                 else if (word_of_nat len :: u64) \<noteq> word_of_nat dataLen - word_of_int nb * 8
                   then Inl AssertFailed
                 else Inr (r\<lparr>sga := segs, isDone := True, res := int len\<rparr>))))"

text \<open>
  The whole attempt. The payload buffer is allocated when the header is complete and
  the request has none; \<open>malloc\<close> is taken to succeed, and the bytes of the new buffer,
  which the code never reads before writing them, are zero here.
\<close>

definition ProcessIncoming ::
  "u64 \<Rightarrow> MTCPQueue \<Rightarrow> mtcp_sock \<Rightarrow> PendingRequest
     \<Rightarrow> fault + (MTCPQueue \<times> mtcp_sock \<times> PendingRequest)" where
  "ProcessIncoming MAGIC q s r =
     (case pi_accept q s r of
        Return x \<Rightarrow> Inr x
      | Continue (q1, s1, r1) \<Rightarrow>
          (case pi_header s1 r1 of
             Return (s2, r2) \<Rightarrow> Inr (q1, s2, r2)
           | Continue (s2, r2) \<Rightarrow>
               if header_word r2 0 \<noteq> MAGIC then Inr (q1, s2, r2\<lparr>isDone := True, res := -1\<rparr>)
               else
                 (let dataLen = unat (header_word r2 1);
                      r3 = (if buf r2 = None then r2\<lparr>buf := Some (replicate dataLen 0)\<rparr> else r2)
                  in case pi_payload dataLen s2 r3 of
                       Return (s4, r4) \<Rightarrow> Inr (q1, s4, r4)
                     | Continue (s4, r4) \<Rightarrow>
                         (case pi_fill dataLen r4 of
                            Inl e \<Rightarrow> Inl e
                          | Inr r5 \<Rightarrow> Inr (q1, s4, r5)))))"

subsection \<open>\<open>MTCPQueue::ProcessOutgoing\<close>\<close>

text \<open>
  The I/O vector \<open>vsga\<close>: the 24-byte header, then for every segment its 8-byte length
  cell and its body. The header words are \<open>MAGIC\<close>, \<open>totalLen\<close> (length cells and
  bodies) and \<open>num_bufs\<close>. Pinning and unpinning of the buffers leave no trace in this
  model.
\<close>

definition out_header :: "u64 \<Rightarrow> sgarray \<Rightarrow> byte list" where
  "out_header MAGIC sg =
     le_bytes 8 MAGIC
     @ le_bytes 8 (word_of_nat (sum_list (map (\<lambda>b. length b + 8) sg)) :: u64)
     @ le_bytes 8 (word_of_nat (length sg) :: u64)"

definition out_cells :: "sgarray \<Rightarrow> byte list list" where
  "out_cells sg = concat (map (\<lambda>b. [le_bytes 8 (word_of_nat (length b) :: u64), b]) sg)"

definition ProcessOutgoing ::
  "u64 \<Rightarrow> mtcp_sock \<Rightarrow> PendingRequest \<Rightarrow> fault + (mtcp_sock \<times> PendingRequest)" where
  "ProcessOutgoing MAGIC s r =
     (let dataSize = sum_list (map length (sga r));
          totalLen = sum_list (map (\<lambda>b. length b + 8) (sga r)) + 24;
          r1 = r\<lparr>header := out_header MAGIC (sga r)\<rparr>
      in case mtcp_writev s (header r1 # out_cells (sga r)) of
           (EAGAIN, s') \<Rightarrow> Inr (s', r1)
         | (EFAIL, s') \<Rightarrow> Inr (s', r1\<lparr>isDone := True, res := -1\<rparr>)
         | (Count bs, s') \<Rightarrow>
             (let r2 = r1\<lparr>num_bytes := num_bytes r1 + length bs\<rparr>
              in if num_bytes r2 < totalLen
                 then (if num_bytes r2 = 0 then Inr (s', r2) else Inl AssertFailed)
                 else Inr (s', r2\<lparr>res := int dataSize, isDone := True\<rparr>)))"

subsection \<open>The engine: \<open>ProcessQ\<close>, \<open>Enqueue\<close>, and the data-plane calls\<close>

text \<open>
  Modelled from the spec: the macro \<open>IS_PUSH\<close> is not among the sources. The low bit of
  a token is its operation bit, 1 for a push and 0 for a pop.
\<close>

definition IS_PUSH :: "qtoken \<Rightarrow> bool" where
  "IS_PUSH qt = bit qt 0"

text \<open>Dispatching one request to the encoder or to the decoder.\<close>

definition dispatch ::
  "u64 \<Rightarrow> qtoken \<Rightarrow> MTCPQueue \<Rightarrow> mtcp_sock \<Rightarrow> PendingRequest
     \<Rightarrow> fault + (MTCPQueue \<times> mtcp_sock \<times> PendingRequest)" where
  "dispatch MAGIC qt q s r =
     (if IS_PUSH qt then
        (case ProcessOutgoing MAGIC s r of
           Inl e \<Rightarrow> Inl e
         | Inr (s', r') \<Rightarrow> Inr (q, s', r'))
      else ProcessIncoming MAGIC q s r)"

text \<open>
  \<open>ProcessQ maxRequests\<close>: the first argument counts the iterations still allowed
  (\<open>maxRequests - done\<close>). The request is changed in place in the pending map.
\<close>

fun ProcessQ :: "u64 \<Rightarrow> nat \<Rightarrow> MTCPQueue \<Rightarrow> mtcp_sock \<Rightarrow> fault + (MTCPQueue \<times> mtcp_sock)" where
  "ProcessQ MAGIC 0 q s = Inr (q, s)"
| "ProcessQ MAGIC (Suc n) q s =
     (case workQ q of
        [] \<Rightarrow> Inr (q, s)
      | qt # rest \<Rightarrow>
          (case pending q qt of
             None \<Rightarrow> ProcessQ MAGIC n (q\<lparr>workQ := rest\<rparr>) s
           | Some req \<Rightarrow>
               (case dispatch MAGIC qt q s req of
                  Inl e \<Rightarrow> Inl e
                | Inr (q', s', req') \<Rightarrow>
                    (let q'' = q'\<lparr>pending := (pending q')(qt \<mapsto> req')\<rparr>
                     in ProcessQ MAGIC n
                          (if isDone req' then q''\<lparr>workQ := tl (workQ q'')\<rparr> else q'') s'))))"

definition Enqueue ::
  "u64 \<Rightarrow> qtoken \<Rightarrow> sgarray \<Rightarrow> MTCPQueue \<Rightarrow> mtcp_sock \<Rightarrow> fault + (int \<times> MTCPQueue \<times> mtcp_sock)" where
  "Enqueue MAGIC qt sg q s =
     (case dispatch MAGIC qt q s (new_request sg) of
        Inl e \<Rightarrow> Inl e
      | Inr (q', s', req) \<Rightarrow>
          if isDone req then Inr (res req, q', s')
          else if pending q' qt \<noteq> None then Inl AssertFailed
          else Inr (0, q'\<lparr>pending := (pending q')(qt \<mapsto> req), workQ := workQ q' @ [qt]\<rparr>, s'))"

text \<open>
  \<open>push\<close> and \<open>pop\<close> add their direction to the interest set \<open>mtcp_evts\<close> and enqueue.
  The two event bits are those of the mTCP library's \<open>mtcp_epoll.h\<close>; the call of
  \<open>mtcp_epoll_ctl\<close> leaves no trace in this model. After an \<open>Enqueue\<close> that returned a
  result other than 0, \<open>pop\<close> looks the token up in the pending map, asserts that it is
  there, and copies the array of the entry found.
\<close>

definition MTCP_EPOLLIN :: u32 where "MTCP_EPOLLIN = 0x001"
definition MTCP_EPOLLOUT :: u32 where "MTCP_EPOLLOUT = 0x004"

definition push ::
  "u64 \<Rightarrow> qtoken \<Rightarrow> sgarray \<Rightarrow> MTCPQueue \<Rightarrow> mtcp_sock \<Rightarrow> fault + (int \<times> MTCPQueue \<times> mtcp_sock)" where
  "push MAGIC qt sg q s = Enqueue MAGIC qt sg (q\<lparr>mtcp_evts := MTCP_EPOLLOUT OR mtcp_evts q\<rparr>) s"

definition pop ::
  "u64 \<Rightarrow> qtoken \<Rightarrow> sgarray \<Rightarrow> MTCPQueue \<Rightarrow> mtcp_sock
     \<Rightarrow> fault + (int \<times> sgarray \<times> MTCPQueue \<times> mtcp_sock)" where
  "pop MAGIC qt sg q s =
     (case Enqueue MAGIC qt sg (q\<lparr>mtcp_evts := MTCP_EPOLLIN OR mtcp_evts q\<rparr>) s of
        Inl e \<Rightarrow> Inl e
      | Inr (ret, q', s') \<Rightarrow>
          if ret \<noteq> 0 then
            (case pending q' qt of
               None \<Rightarrow> Inl AssertFailed
             | Some r \<Rightarrow> Inr (ret, sga r, q', s'))
          else Inr (ret, sg, q', s'))"

text \<open>\<open>peek\<close>: a request of its own, one decoding attempt, and the request is gone.\<close>

definition peek ::
  "u64 \<Rightarrow> sgarray \<Rightarrow> MTCPQueue \<Rightarrow> mtcp_sock \<Rightarrow> fault + (int \<times> MTCPQueue \<times> mtcp_sock)" where
  "peek MAGIC sg q s =
     (case ProcessIncoming MAGIC q s (new_request sg) of
        Inl e \<Rightarrow> Inl e
      | Inr (q', s', req) \<Rightarrow> Inr (if isDone req then res req else 0, q', s'))"

text \<open>\<open>poll\<close> returns the result, the caller's array and the queue.\<close>

definition poll :: "qtoken \<Rightarrow> sgarray \<Rightarrow> MTCPQueue \<Rightarrow> fault + (int \<times> sgarray \<times> MTCPQueue)" where
  "poll qt sg q =
     (case pending q qt of
        None \<Rightarrow> Inl AssertFailed
      | Some r \<Rightarrow> if isDone r then Inr (res r, sga r, q) else Inr (0, sg, q))"

text \<open>
  \<open>wait\<close> runs \<open>ProcessQ(1)\<close> until the request is done, which may be never: the first
  argument bounds the number of iterations, and \<open>None\<close> says that the bound was reached
  with the request still not done.
\<close>

fun wait_loop ::
  "nat \<Rightarrow> u64 \<Rightarrow> qtoken \<Rightarrow> MTCPQueue \<Rightarrow> mtcp_sock \<Rightarrow> (fault + (int \<times> MTCPQueue \<times> mtcp_sock)) option" where
  "wait_loop 0 MAGIC qt q s = None"
| "wait_loop (Suc fuel) MAGIC qt q s =
     (case pending q qt of
        None \<Rightarrow> Some (Inl AssertFailed)
      | Some r \<Rightarrow>
          if isDone r then Some (Inr (res r, q, s))
          else (case ProcessQ MAGIC 1 q s of
                  Inl e \<Rightarrow> Some (Inl e)
                | Inr (q', s') \<Rightarrow> wait_loop fuel MAGIC qt q' s'))"

definition wait ::
  "nat \<Rightarrow> u64 \<Rightarrow> qtoken \<Rightarrow> MTCPQueue \<Rightarrow> mtcp_sock \<Rightarrow> (fault + (int \<times> MTCPQueue \<times> mtcp_sock)) option" where
  "wait fuel MAGIC qt q s =
     (case pending q qt of
        None \<Rightarrow> Some (Inl AssertFailed)
      | Some r \<Rightarrow> wait_loop fuel MAGIC qt q s)"

text \<open>
  A parked pop as the engine drives it: the decoder is run on the same request until
  the request is done; \<open>None\<close> when the bound on the number of attempts is reached.
\<close>

fun decode_loop ::
  "nat \<Rightarrow> u64 \<Rightarrow> MTCPQueue \<Rightarrow> mtcp_sock \<Rightarrow> PendingRequest
     \<Rightarrow> (fault + (MTCPQueue \<times> mtcp_sock \<times> PendingRequest)) option" where
  "decode_loop 0 MAGIC q s r = None"
| "decode_loop (Suc fuel) MAGIC q s r =
     (case ProcessIncoming MAGIC q s r of
        Inl e \<Rightarrow> Some (Inl e)
      | Inr (q', s', r') \<Rightarrow>
          if isDone r' then Some (Inr (q', s', r')) else decode_loop fuel MAGIC q' s' r')"

section \<open>Packet backend: \<open>lwip_queue\<close> over DPDK\<close>

subsection \<open>Addresses and byte order\<close>

text \<open>
  \<open>htons\<close> and \<open>htonl\<close> on a little-endian host reverse the bytes; \<open>ntohs\<close> is the
  same function as \<open>htons\<close>.
\<close>

definition htons :: "u16 \<Rightarrow> u16" where
  "htons x = push_bit 8 x OR drop_bit 8 x"

definition ntohs :: "u16 \<Rightarrow> u16" where
  "ntohs x = htons x"

definition htonl :: "u32 \<Rightarrow> u32" where
  "htonl x = push_bit 24 x OR push_bit 8 (x AND 0xFF00) OR drop_bit 8 (x AND 0xFF0000) OR drop_bit 24 x"

type_synonym ether_addr = "byte list"

text \<open>The table \<open>ip_config\<close> of MAC and IPv4 address pairs, the addresses in host
  order, and the two lookups, each returning at the first entry that matches.\<close>

definition ip_config :: "(ether_addr \<times> u32) list" where
  "ip_config =
     [([0x00, 0x0d, 0x3a, 0x70, 0x25, 0x75], push_bit 24 10 OR push_bit 16 0 OR push_bit 8 0 OR 5),
      ([0x00, 0x0d, 0x3a, 0x5e, 0x4f, 0x6e], push_bit 24 10 OR push_bit 16 0 OR push_bit 8 0 OR 7)]"

definition ether_broadcast :: ether_addr where
  "ether_broadcast = [0xff, 0xff, 0xff, 0xff, 0xff, 0xff]"

definition ip_to_mac :: "u32 \<Rightarrow> ether_addr" where
  "ip_to_mac a = (case find (\<lambda>e. a = snd e) ip_config of Some e \<Rightarrow> fst e | None \<Rightarrow> ether_broadcast)"

definition mac_to_ip :: "ether_addr \<Rightarrow> u32" where
  "mac_to_ip m = (case find (\<lambda>e. m = fst e) ip_config of Some e \<Rightarrow> snd e | None \<Rightarrow> 0)"

subsection \<open>Packets\<close>

text \<open>
  The three headers are the DPDK structs that the code lays over the start of the
  packet buffer; a field holds the value stored in it. What follows the UDP header is
  the payload, byte by byte. A packet shorter than its three headers is outside this
  model.
\<close>

record ether_hdr =
  d_addr :: ether_addr
  s_addr :: ether_addr
  ether_type :: u16

record ipv4_hdr =
  version_ihl :: byte
  type_of_service :: byte
  total_length :: u16
  packet_id :: u16
  fragment_offset :: u16
  time_to_live :: byte
  next_proto_id :: byte
  hdr_checksum :: u16
  src_addr :: u32
  dst_addr :: u32

record udp_hdr =
  src_port :: u16
  dst_port :: u16
  dgram_len :: u16
  dgram_cksum :: u16

record rte_mbuf =
  eth :: ether_hdr
  ip :: ipv4_hdr
  udp :: udp_hdr
  payload :: "byte list"
  data_len :: u16
  pkt_len :: u32
  nb_segs :: u16

definition ETHER_TYPE_IPv4 :: u16 where "ETHER_TYPE_IPv4 = 0x0800"
definition IPPROTO_UDP :: byte where "IPPROTO_UDP = 17"
definition AF_INET :: u16 where "AF_INET = 2"
definition IP_DEFTTL :: byte where "IP_DEFTTL = 64"
definition IP_VHL_DEF :: byte where "IP_VHL_DEF = 0x40 OR 0x05"

definition EPERM :: int where "EPERM = 1"
definition ENOMEM :: int where "ENOMEM = 12"
definition EINVAL :: int where "EINVAL = 22"
definition ERANGE :: int where "ERANGE = 34"
definition ENOTSUP :: int where "ENOTSUP = 95"

text \<open>The value of the \<open>errno\<close> constant \<open>EAGAIN\<close>, which the packet backend returns.\<close>

definition EAGAIN_code :: int where "EAGAIN_code = 11"

subsection \<open>\<open>ip_sum\<close>\<close>

text \<open>
  The checksum loop over the 16-bit words of the header. The variable \<open>sum\<close> of the
  source, a 32-bit unsigned integer, is \<open>sm\<close> here: its value is kept as a natural
  number, reduced modulo \<open>2 ^ 32\<close> where the addition could wrap.
\<close>

fun ip_sum_add :: "nat \<Rightarrow> u16 list \<Rightarrow> nat" where
  "ip_sum_add sm [] = sm"
| "ip_sum_add sm (w # ws) =
     (let s1 = (sm + unat w) mod 2 ^ 32;
          s2 = (if bit s1 31 then s1 mod 65536 + s1 div 65536 else s1)
      in ip_sum_add s2 ws)"

function ip_sum_fold :: "nat \<Rightarrow> nat" where
  "ip_sum_fold sm = (if sm div 65536 \<noteq> 0 then ip_sum_fold (sm mod 65536 + sm div 65536) else sm)"
  by pat_completeness auto
termination
proof (relation "measure (\<lambda>s. s)")
  show "wf (measure (\<lambda>s. s))" by simp
next
  fix sm :: nat
  assume a: "sm div 65536 \<noteq> 0"
  define d where "d = sm div 65536"
  define m where "m = sm mod 65536"
  have e: "sm = 65536 * d + m" unfolding d_def m_def by simp
  from a have "0 < d" by (simp add: d_def)
  then have "m + d < 65536 * d + m" by simp
  with e have "m + d < sm" by simp
  then show "(sm mod 65536 + sm div 65536, sm) \<in> measure (\<lambda>s. s)"
    by (simp add: d_def m_def)
qed

definition ip_sum :: "u16 list \<Rightarrow> u16" where
  "ip_sum hdr = NOT (word_of_nat (ip_sum_fold (ip_sum_add 0 hdr)))"

text \<open>The ten 16-bit words of an IPv4 header as a little-endian host reads them.\<close>

definition ipv4_hdr_words :: "ipv4_hdr \<Rightarrow> u16 list" where
  "ipv4_hdr_words h =
     [ucast (version_ihl h) OR push_bit 8 (ucast (type_of_service h)),
      total_length h, packet_id h, fragment_offset h,
      ucast (time_to_live h) OR push_bit 8 (ucast (next_proto_id h)),
      hdr_checksum h,
      ucast (src_addr h), ucast (drop_bit 16 (src_addr h)),
      ucast (dst_addr h), ucast (drop_bit 16 (dst_addr h))]"

subsection \<open>Queue, task and process state\<close>

text \<open>
  An array of the packet backend: its segments (\<open>sga_numsegs\<close> is their number and
  \<open>sgaseg_len\<close> the length of each), the address slot \<open>sga_addr\<close>, a pointer that may be
  null, and \<open>sga_addrlen\<close>. \<open>sizeof(struct sockaddr_in)\<close> is 16.
\<close>

record dmtr_sgarray =
  sga_segs :: "byte list list"
  sga_addr :: "sockaddr_in option"
  sga_addrlen :: nat

record task =
  task_sga :: dmtr_sgarray
  task_done :: bool
  task_error :: int

record lwip_queue =
  my_bound_addr :: "sockaddr_in option"
  my_default_peer :: "sockaddr_in option"

text \<open>
  The process-wide state and the device: the initialisation flag, the port in use,
  whether the mbuf pool exists, the valid ports with their MAC addresses, whether the
  pool has a buffer left, whether the transmit ring takes a packet now, and the
  packets transmitted so far.
\<close>

record dpdk =
  our_dpdk_init_flag :: bool
  our_dpdk_port_id :: "u16 option"
  our_mbuf_pool :: bool
  ports :: "u16 \<rightharpoonup> ether_addr"
  mbuf_avail :: bool
  tx_free :: bool
  wire :: "rte_mbuf list"

text \<open>Modelled from the spec: \<open>is_bound\<close> is declared in \<open>lwip_queue.hh\<close>, which is not
  among the sources. A queue is bound when \<open>bind\<close> has set \<open>my_bound_addr\<close>.\<close>

definition is_bound :: "lwip_queue \<Rightarrow> bool" where
  "is_bound q \<longleftrightarrow> my_bound_addr q \<noteq> None"

subsection \<open>\<open>lwip_queue::complete_send\<close>\<close>

text \<open>The destination: the default peer when \<open>connect\<close> has set one, else the address
  that comes with the array, which must have the size of a \<open>sockaddr_in\<close>.\<close>

definition send_saddr :: "lwip_queue \<Rightarrow> task \<Rightarrow> fault + (int + sockaddr_in)" where
  "send_saddr q t =
     (case my_default_peer q of
        None \<Rightarrow>
          if sga_addrlen (task_sga t) \<noteq> 16 then Inr (Inl EINVAL)
          else (case sga_addr (task_sga t) of None \<Rightarrow> Inl NullDeref | Some a \<Rightarrow> Inr (Inr a))
      | Some peer \<Rightarrow> Inr (Inr peer))"

definition send_eth_hdr :: "ether_addr \<Rightarrow> sockaddr_in \<Rightarrow> ether_hdr" where
  "send_eth_hdr mac saddr =
     \<lparr>d_addr = ip_to_mac (htonl (sin_addr saddr)), s_addr = mac, ether_type = htons ETHER_TYPE_IPv4\<rparr>"

definition send_ip_hdr :: "lwip_queue \<Rightarrow> ether_addr \<Rightarrow> sockaddr_in \<Rightarrow> ipv4_hdr" where
  "send_ip_hdr q mac saddr =
     (let h = \<lparr>version_ihl = IP_VHL_DEF, type_of_service = 0, total_length = htons (8 + 20),
               packet_id = 0, fragment_offset = 0, time_to_live = IP_DEFTTL,
               next_proto_id = IPPROTO_UDP, hdr_checksum = 0,
               src_addr = (case my_bound_addr q of
                             Some bound_addr \<Rightarrow> htonl (sin_addr bound_addr)
                           | None \<Rightarrow> htonl (mac_to_ip mac)),
               dst_addr = sin_addr saddr\<rparr>
      in h\<lparr>hdr_checksum := htons (ip_sum (ipv4_hdr_words h))\<rparr>)"

definition send_udp_hdr :: "lwip_queue \<Rightarrow> sockaddr_in \<Rightarrow> udp_hdr" where
  "send_udp_hdr q saddr =
     (let h = \<lparr>src_port = 0, dst_port = htons (sin_port saddr), dgram_len = 0, dgram_cksum = 0\<rparr>
      in case my_bound_addr q of
           Some bound_addr \<Rightarrow> h\<lparr>src_port := htons (sin_port bound_addr)\<rparr>
         | None \<Rightarrow> h\<lparr>src_port := dst_port h\<rparr>)"

text \<open>The payload: the 32-bit segment count, then every segment as its 32-bit length
  and its bytes.\<close>

definition send_payload :: "byte list list \<Rightarrow> byte list" where
  "send_payload segs =
     le_bytes 4 (word_of_nat (length segs) :: u32)
     @ concat (map (\<lambda>b. le_bytes 4 (word_of_nat (length b) :: u32) @ b) segs)"

text \<open>
  Modelled from the spec: \<open>dmtr_u32tou16\<close> is declared in \<open>dmtr/cast.h\<close>, which is not
  among the sources. A frame is a single datagram, whose UDP length is a 16-bit
  field: the conversion fails with \<open>ERANGE\<close> on a value that does not fit in 16 bits.
\<close>

definition dmtr_u32tou16 :: "u32 \<Rightarrow> int + u16" where
  "dmtr_u32tou16 x = (if 65535 < unat x then Inl ERANGE else Inr (ucast x))"

text \<open>
  Modelled from the spec: the macros \<open>DMTR_TRUE\<close>, \<open>DMTR_OK\<close>, \<open>DMTR_NOTNULL\<close> and
  \<open>DMTR_NULL\<close> of \<open>dmtr/annot.h\<close> are not among the sources. A check that fails makes
  the function return the error code at once, as in a release build.

  \<open>complete_send\<close>. The value of \<open>rte_eth_macaddr_get\<close> is not checked here, so that on
  an invalid port the source MAC stays as \<open>memset\<close> left it.
\<close>

definition complete_send :: "lwip_queue \<Rightarrow> task \<Rightarrow> dpdk \<Rightarrow> fault + (int \<times> task \<times> dpdk)" where
  "complete_send q t e =
     (if \<not> our_dpdk_init_flag e then Inr (EPERM, t, e)
      else case our_dpdk_port_id e of
        None \<Rightarrow> Inr (EPERM, t, e)
      | Some port \<Rightarrow>
          (case send_saddr q t of
             Inl f \<Rightarrow> Inl f
           | Inr (Inl err) \<Rightarrow> Inr (err, t, e)
           | Inr (Inr saddr) \<Rightarrow>
               if \<not> our_mbuf_pool e then Inr (EINVAL, t, e)
               else if \<not> mbuf_avail e then Inr (ENOMEM, t, e)
               else
                 (let mac = (case ports e port of None \<Rightarrow> replicate 6 0 | Some m \<Rightarrow> m);
                      pl = send_payload (sga_segs (task_sga t));
                      payload_len = (word_of_nat (length pl) :: u32);
                      total_len = 14 + 20 + 8 + payload_len
                  in case dmtr_u32tou16 (8 + payload_len) of
                       Inl err \<Rightarrow> Inr (err, t, e)
                     | Inr udp_len \<Rightarrow>
                       (let pkt = \<lparr>eth = send_eth_hdr mac saddr,
                                   ip = send_ip_hdr q mac saddr,
                                   udp = (send_udp_hdr q saddr)\<lparr>dgram_len := htons udp_len\<rparr>,
                                   payload = pl, data_len = ucast total_len, pkt_len = total_len,
                                   nb_segs = 1\<rparr>
                        in case ports e port of
                             None \<Rightarrow> Inr (ERANGE, t, e)
                           | Some m \<Rightarrow>
                               if \<not> tx_free e then Inr (EAGAIN_code, t, e)
                               else Inr (0, t\<lparr>task_done := True, task_error := 0\<rparr>,
                                         e\<lparr>wire := wire e @ [pkt]\<rparr>)))))"

subsection \<open>\<open>lwip_queue::complete_recv\<close>\<close>

text \<open>The loop over the segments of a received payload, at the cursor \<open>p\<close>: a 32-bit
  length, then that many bytes, copied out. Reading past the end of the packet is
  \<open>OutOfBounds\<close>. The allocation of the copy is taken to succeed.\<close>

fun recv_segs :: "nat \<Rightarrow> byte list \<Rightarrow> fault + byte list list" where
  "recv_segs 0 p = Inr []"
| "recv_segs (Suc n) p =
     (if length p < 4 then Inl OutOfBounds
      else let seg_len = unat (le_word (take 4 p) :: u32); p' = drop 4 p
           in if length p' < seg_len then Inl OutOfBounds
              else (case recv_segs n (drop seg_len p') of
                      Inl f \<Rightarrow> Inl f
                    | Inr segs \<Rightarrow> Inr (take seg_len p' # segs)))"

text \<open>The checks on the headers, in the order of the code: each one that fails drops
  the packet. \<open>mac_addr\<close> is the MAC address of the local port.\<close>

definition recv_dropped :: "lwip_queue \<Rightarrow> ether_addr \<Rightarrow> rte_mbuf \<Rightarrow> bool" where
  "recv_dropped q mac_addr pk =
     (if mac_addr \<noteq> d_addr (eth pk) then True
      else if ETHER_TYPE_IPv4 \<noteq> ntohs (ether_type (eth pk)) then True
      else if (case my_bound_addr q of
                 Some bound_addr \<Rightarrow> dst_addr (ip pk) \<noteq> sin_addr bound_addr
               | None \<Rightarrow> False) then True
      else if IPPROTO_UDP \<noteq> next_proto_id (ip pk) then True
      else if (case my_bound_addr q of
                 Some bound_addr \<Rightarrow> ntohs (dst_port (udp pk)) \<noteq> sin_port bound_addr
               | None \<Rightarrow> False) then True
      else False)"

text \<open>The rest of \<open>complete_recv\<close>, for a packet that passed the checks: the segments
  are copied into the task's array, the address slot is filled when the array has one
  of the size of a \<open>sockaddr_in\<close>, and the task is done.\<close>

definition recv_fill :: "task \<Rightarrow> rte_mbuf \<Rightarrow> fault + (int \<times> task)" where
  "recv_fill t pk =
     (if length (payload pk) < 4 then Inl OutOfBounds
      else case recv_segs (unat (le_word (take 4 (payload pk)) :: u32)) (drop 4 (payload pk)) of
        Inl f \<Rightarrow> Inl f
      | Inr segs \<Rightarrow>
          (let t1 = t\<lparr>task_sga := (task_sga t)\<lparr>sga_segs := segs\<rparr>\<rparr>
           in if sga_addrlen (task_sga t) = 16 then
                (case sga_addr (task_sga t) of
                   None \<Rightarrow> Inr (EPERM, t1)
                 | Some slot \<Rightarrow>
                     Inr (0, t1\<lparr>task_sga := (task_sga t1)
                                   \<lparr>sga_addr := Some \<lparr>sin_family = AF_INET,
                                        sin_port = ntohs (src_port (udp pk)),
                                        sin_addr = src_addr (ip pk)\<rparr>\<rparr>,
                                task_done := True, task_error := 0\<rparr>))
              else
                (case sga_addr (task_sga t) of
                   Some slot \<Rightarrow> Inr (ENOTSUP, t1)
                 | None \<Rightarrow> Inr (0, t1\<lparr>task_done := True, task_error := 0\<rparr>))))"

definition complete_recv ::
  "lwip_queue \<Rightarrow> task \<Rightarrow> rte_mbuf option \<Rightarrow> dpdk \<Rightarrow> fault + (int \<times> task)" where
  "complete_recv q t pkt e =
     (if \<not> our_dpdk_init_flag e then Inr (EPERM, t)
      else case pkt of
        None \<Rightarrow> Inr (EINVAL, t)
      | Some pk \<Rightarrow>
          (case our_dpdk_port_id e of
             None \<Rightarrow> Inr (EPERM, t)
           | Some port \<Rightarrow>
               (case ports e port of
                  None \<Rightarrow> Inr (ERANGE, t)
                | Some mac_addr \<Rightarrow>
                    if recv_dropped q mac_addr pk then Inr (0, t) else recv_fill t pk)))"

section \<open>Inputs and predicates of the statements\<close>

subsection \<open>Concrete inputs\<close>

text \<open>A connected queue with nothing parked, and a socket holding the bytes \<open>bs\<close> with
  the read plan \<open>p\<close>. The examples below run the code on them.\<close>

definition idle_queue :: MTCPQueue where
  "idle_queue = \<lparr>qd = 3, mtcp_qd = 7, listening = False, accepts = [], workQ = [],
                 pending = Map.empty, mtcp_evts = 0\<rparr>"

definition plain_sock :: "byte list \<Rightarrow> io_event list \<Rightarrow> mtcp_sock" where
  "plain_sock bs p = \<lparr>rx = bs, rd_plan = p, tx = [], wr_plan = [], acc_plan = []\<rparr>"

text \<open>A queue on which the pop with token 2 is parked and done with result 10.\<close>

definition done_queue :: MTCPQueue where
  "done_queue = idle_queue\<lparr>pending := [2 \<mapsto> (new_request [])\<lparr>isDone := True, res := 10\<rparr>]\<rparr>"

text \<open>The bytes of one frame, as \<open>ProcessOutgoing\<close> hands them to \<open>mtcp_writev\<close>.\<close>

definition one_frame :: "u64 \<Rightarrow> sgarray \<Rightarrow> byte list" where
  "one_frame MAGIC sg = out_header MAGIC sg @ concat (out_cells sg)"

definition ten_bytes :: "byte list" where
  "ten_bytes = [1, 2, 3, 4, 5, 6, 7, 8, 9, 10]"

definition hello :: "byte list" where
  "hello = [0x68, 0x65, 0x6c, 0x6c, 0x6f]"

definition world :: "byte list" where
  "world = [0x77, 0x6f, 0x72, 0x6c, 0x64]"

text \<open>
  Inputs of the packet backend: the segment \<open>ping\<close>, the MAC addresses of the two hosts
  of \<open>ip_config\<close>, a \<open>sockaddr_in\<close> from address and port, a process whose only port 0
  has the given MAC address, with buffers and transmit ring free, a queue bound to an
  address and one that is not bound, a task pushing segments to a destination, a pop
  task with an address slot, and a packet for 10.0.0.5 port 9001 as an unbound sender
  builds it.
\<close>

definition ping :: "byte list" where
  "ping = [0x70, 0x69, 0x6e, 0x67]"

definition mac_cassance :: ether_addr where
  "mac_cassance = [0x00, 0x0d, 0x3a, 0x70, 0x25, 0x75]"

definition mac_hightent :: ether_addr where
  "mac_hightent = [0x00, 0x0d, 0x3a, 0x5e, 0x4f, 0x6e]"

definition inet_addr :: "u32 \<Rightarrow> u16 \<Rightarrow> sockaddr_in" where
  "inet_addr a p = \<lparr>sin_family = AF_INET, sin_port = p, sin_addr = a\<rparr>"

definition nic_env :: "ether_addr \<Rightarrow> dpdk" where
  "nic_env m = \<lparr>our_dpdk_init_flag = True, our_dpdk_port_id = Some 0, our_mbuf_pool = True,
               ports = [0 \<mapsto> m], mbuf_avail = True, tx_free = True, wire = []\<rparr>"

definition bound_queue :: "sockaddr_in \<Rightarrow> lwip_queue" where
  "bound_queue a = \<lparr>my_bound_addr = Some a, my_default_peer = None\<rparr>"

definition unbound_queue :: lwip_queue where
  "unbound_queue = \<lparr>my_bound_addr = None, my_default_peer = None\<rparr>"

definition push_task :: "byte list list \<Rightarrow> sockaddr_in \<Rightarrow> task" where
  "push_task segs dst =
     \<lparr>task_sga = \<lparr>sga_segs = segs, sga_addr = Some dst, sga_addrlen = 16\<rparr>,
      task_done = False, task_error = 0\<rparr>"

definition pop_task :: task where
  "pop_task =
     \<lparr>task_sga = \<lparr>sga_segs = [], sga_addr = Some (inet_addr 0 0), sga_addrlen = 16\<rparr>,
      task_done = False, task_error = 0\<rparr>"

definition wrong_port_pkt :: rte_mbuf where
  "wrong_port_pkt =
     \<lparr>eth = send_eth_hdr mac_hightent (inet_addr 0x0500000A 9001),
      ip = send_ip_hdr unbound_queue mac_hightent (inet_addr 0x0500000A 9001),
      udp = (send_udp_hdr unbound_queue (inet_addr 0x0500000A 9001))\<lparr>dgram_len := htons 20\<rparr>,
      payload = send_payload [ping], data_len = 54, pkt_len = 54, nb_segs = 1\<rparr>"

subsection \<open>Predicates of the statements\<close>

text \<open>From \<open>q\<close> to \<open>q'\<close> the pending map has kept its tokens, and every request that was
  done is still there and still done.\<close>

definition keeps_entries :: "MTCPQueue \<Rightarrow> MTCPQueue \<Rightarrow> bool" where
  "keeps_entries q q' \<longleftrightarrow>
     dom (pending q') = dom (pending q) \<and>
     (\<forall>t r. pending q t = Some r \<and> isDone r \<longrightarrow> (\<exists>r'. pending q' t = Some r' \<and> isDone r'))"

text \<open>A read plan under which every read moves at least one byte.\<close>

fun delivers :: "io_event \<Rightarrow> bool" where
  "delivers (Deliver k) = (0 < k)"
| "delivers _ = False"

text \<open>
  The state of a pop in the middle of a frame with header \<open>hdr\<close> and payload \<open>pay\<close>,
  followed on the stream by \<open>rest\<close>: the request has consumed \<open>num_bytes\<close> bytes of the
  frame, the stream holds the others, and header and payload buffer agree with the
  frame on what has been read.
\<close>

definition decoding ::
  "byte list \<Rightarrow> byte list \<Rightarrow> byte list \<Rightarrow> mtcp_sock \<Rightarrow> PendingRequest \<Rightarrow> bool" where
  "decoding hdr pay rest s r \<longleftrightarrow>
     num_bytes r < 24 + length pay \<and>
     rx s = drop (num_bytes r) (hdr @ pay) @ rest \<and>
     list_all delivers (rd_plan s) \<and>
     \<not> isDone r \<and> length (header r) = 24 \<and>
     take (min (num_bytes r) 24) (header r) = take (min (num_bytes r) 24) hdr \<and>
     (if num_bytes r < 24 then buf r = None
      else \<exists>m. buf r = Some m \<and> length m = length pay \<and>
             take (num_bytes r - 24) m = take (num_bytes r - 24) pay)"

section \<open>Properties\<close>

lemma le_word_le_bytes: "le_word (le_bytes n w) = take_bit (8 * n) w"
proof (induction n arbitrary: w)
  case 0
  show ?case by simp
next
  case (Suc n)
  show ?case
    apply (simp add: Suc)
    apply (rule bit_eqI)
    apply (auto simp: bit_simps)
    done
qed

subsection \<open>What a decoding attempt leaves alone\<close>

lemma pi_accept_Return_queue:
  "pi_accept q s r = Return (q', s', r') \<Longrightarrow> q' = q\<lparr>accepts := accepts q'\<rparr>"
  by (auto simp: pi_accept_def split: if_splits prod.splits accept_event.splits)

lemma pi_accept_Continue_queue:
  "pi_accept q s r = Continue (q', s', r') \<Longrightarrow> q' = q\<lparr>accepts := accepts q'\<rparr>"
  by (auto simp: pi_accept_def split: if_splits prod.splits accept_event.splits)

lemma ProcessIncoming_queue:
  "ProcessIncoming MAGIC q s r = Inr (q', s', r') \<Longrightarrow> q' = q\<lparr>accepts := accepts q'\<rparr>"
  unfolding ProcessIncoming_def
  by (auto simp: Let_def split: flow.splits prod.splits if_splits sum.splits
           dest: pi_accept_Return_queue pi_accept_Continue_queue)

lemma dispatch_queue:
  "dispatch MAGIC qt q s r = Inr (q', s', r') \<Longrightarrow> q' = q\<lparr>accepts := accepts q'\<rparr>"
  by (auto simp: dispatch_def split: if_splits sum.splits dest: ProcessIncoming_queue)

subsection \<open>The progress step\<close>

text \<open>
  Claim C6. One progress step, \<open>ProcessQ(1)\<close>, looks at the head token of the work
  queue. With an empty work queue nothing happens. A head token with no entry in the
  pending map is dropped from the work queue and nothing is dispatched: the pending map
  and the socket are as before. Otherwise the request found is handed to
  \<open>ProcessOutgoing\<close> when \<open>IS_PUSH\<close> holds of the token and to \<open>ProcessIncoming\<close> when
  it does not, the request is updated in the pending map, and the token leaves the work
  queue exactly when the request is done after the attempt. A failed assertion in the
  attempt ends the step.
\<close>

theorem ProcessQ_step:
  "ProcessQ MAGIC 1 q s =
     (case workQ q of
        [] \<Rightarrow> Inr (q, s)
      | qt # rest \<Rightarrow>
          (case pending q qt of
             None \<Rightarrow> Inr (q\<lparr>workQ := rest\<rparr>, s)
           | Some req \<Rightarrow>
               (case (if IS_PUSH qt
                      then (case ProcessOutgoing MAGIC s req of
                              Inl e \<Rightarrow> Inl e | Inr (s', req') \<Rightarrow> Inr (q, s', req'))
                      else ProcessIncoming MAGIC q s req) of
                  Inl e \<Rightarrow> Inl e
                | Inr (q', s', req') \<Rightarrow>
                    Inr (q'\<lparr>pending := (pending q)(qt \<mapsto> req'),
                            workQ := (if isDone req' then rest else qt # rest)\<rparr>, s'))))"
proof (cases "workQ q")
  case Nil
  then show ?thesis by (simp only: One_nat_def ProcessQ.simps, simp)
next
  case (Cons qt rest)
  note wq = this
  show ?thesis
  proof (cases "pending q qt")
    case None
    with wq show ?thesis by (simp only: One_nat_def ProcessQ.simps, simp)
  next
    case (Some req)
    note pq = this
    show ?thesis
    proof (cases "dispatch MAGIC qt q s req")
      case (Inl e)
      with wq pq show ?thesis
        by (simp only: One_nat_def ProcessQ.simps, simp add: dispatch_def)
    next
      case (Inr x)
      obtain q' s' req' where x: "x = (q', s', req')" by (cases x)
      from Inr x have "q' = q\<lparr>accepts := accepts q'\<rparr>" by (auto dest: dispatch_queue)
      then obtain a where a: "q' = q\<lparr>accepts := a\<rparr>" ..
      from Inr x wq pq a show ?thesis
        by (simp only: One_nat_def ProcessQ.simps, simp add: dispatch_def Let_def)
    qed
  qed
qed

text \<open>A work queue whose head token 4 has no pending request: the step drops it.\<close>

theorem ProcessQ_step_witness:
  "ProcessQ 0x10102010 1 (done_queue\<lparr>workQ := [4, 2]\<rparr>) (plain_sock [] [])
     = Inr (done_queue\<lparr>workQ := [2]\<rparr>, plain_sock [] [])"
  using ProcessQ_step[of "0x10102010" "done_queue\<lparr>workQ := [4, 2]\<rparr>" "plain_sock [] []"]
  by (simp add: done_queue_def idle_queue_def)

subsection \<open>\<open>socket\<close>\<close>

text \<open>
  Claim C9. \<open>socket\<close> returns the queue's own descriptor \<open>qd\<close> whatever \<open>mtcp_socket\<close>
  returned: that value, a descriptor or the failure value \<open>-1\<close>, is stored in
  \<open>mtcp_qd\<close> and is not what the caller gets.
\<close>

theorem socket_returns_qd:
  "fst (socket init_ret ep sock_ret e q) = qd q \<and>
   mtcp_qd (snd (snd (socket init_ret ep sock_ret e q))) = sock_ret"
  by (simp add: socket_def Let_def)

text \<open>\<open>mtcp_socket\<close> fails with \<open>-1\<close>, and \<open>socket\<close> returns the descriptor 3 of the queue.\<close>

theorem socket_returns_qd_witness:
  "fst (socket 0 5 (- 1) \<lparr>mtcp_env_initialized = False, mtcp_ep = 0\<rparr> idle_queue) = 3 \<and>
   mtcp_qd (snd (snd (socket 0 5 (- 1) \<lparr>mtcp_env_initialized = False, mtcp_ep = 0\<rparr> idle_queue)))
     = - 1"
  using socket_returns_qd[of 0 5 "- 1" "\<lparr>mtcp_env_initialized = False, mtcp_ep = 0\<rparr>" idle_queue]
  by (simp add: idle_queue_def)

subsection \<open>Magic gating and \<open>peek\<close>\<close>

lemma mtcp_read_Count:
  "mtcp_read s n = (Count bs, s') \<Longrightarrow>
     \<exists>k \<le> n. bs = take k (rx s) \<and> rx s' = drop k (rx s)"
proof (cases "rd_plan s")
  case Nil
  assume "mtcp_read s n = (Count bs, s')"
  with Nil have "bs = take n (rx s) \<and> rx s' = drop n (rx s)"
    by (auto simp: mtcp_read_def split: if_splits)
  then show ?thesis by blast
next
  case (Cons e p)
  assume "mtcp_read s n = (Count bs, s')"
  with Cons obtain k where "bs = take (min k n) (rx s) \<and> rx s' = drop (min k n) (rx s)"
    by (cases e) (auto simp: mtcp_read_def)
  moreover have "min k n \<le> n" by simp
  ultimately show ?thesis by blast
qed

lemma pi_header_Continue:
  assumes "pi_header s r = Continue (s2, r2)"
  shows "24 \<le> num_bytes r2 \<and> buf r2 = buf r \<and> isDone r2 = isDone r \<and> res r2 = res r \<and> sga r2 = sga r \<and>
         rx s2 = drop (24 - num_bytes r) (rx s)"
proof (cases "num_bytes r < 24")
  case False
  with assms show ?thesis by (simp add: pi_header_def)
next
  case True
  with assms obtain bs s' where rd: "mtcp_read s (24 - num_bytes r) = (Count bs, s')"
    and s2: "s2 = s'" and r2: "r2 = r\<lparr>header := write_at (header r) (num_bytes r) bs,
                         num_bytes := num_bytes r + length bs\<rparr>"
    and ge: "24 \<le> num_bytes r + length bs"
    by (auto simp: pi_header_def Let_def split: prod.splits io_result.splits if_splits)
  from mtcp_read_Count[OF rd] obtain k where k: "k \<le> 24 - num_bytes r" "bs = take k (rx s)" "rx s' = drop k (rx s)"
    by blast
  from k ge True have "k = 24 - num_bytes r" by auto
  with k s2 r2 ge show ?thesis by simp
qed

text \<open>
  Claim C3. On a connected (not listening) queue, when the header step of the decoder
  leaves 24 header bytes in the request (\<open>pi_header\<close> falls through) and the first
  header word is not \<open>MAGIC\<close>, the attempt marks the request done with result \<open>-1\<close>.
  It has taken from the stream only the header bytes that were missing, it has not
  allocated or filled a payload buffer, and a further attempt on the same request
  reads nothing: socket and request stay as they are.
\<close>

theorem magic_gating:
  assumes "\<not> listening q" and "pi_header s r = Continue (s2, r2)" and "header_word r2 0 \<noteq> MAGIC"
  shows "ProcessIncoming MAGIC q s r = Inr (q, s2, r2\<lparr>isDone := True, res := -1\<rparr>) \<and>
         24 \<le> num_bytes r2 \<and> buf r2 = buf r \<and> rx s2 = drop (24 - num_bytes r) (rx s) \<and>
         ProcessIncoming MAGIC q s2 (r2\<lparr>isDone := True, res := -1\<rparr>)
           = Inr (q, s2, r2\<lparr>isDone := True, res := -1\<rparr>)"
proof -
  from pi_header_Continue[OF assms(2)] have ge: "24 \<le> num_bytes r2" and rest: "buf r2 = buf r" "rx s2 = drop (24 - num_bytes r) (rx s)"
    by simp_all
  have 1: "ProcessIncoming MAGIC q s r = Inr (q, s2, r2\<lparr>isDone := True, res := -1\<rparr>)"
    using assms by (simp add: ProcessIncoming_def pi_accept_def)
  have 2: "pi_header s2 (r2\<lparr>isDone := True, res := -1\<rparr>) = Continue (s2, r2\<lparr>isDone := True, res := -1\<rparr>)"
    using ge by (simp add: pi_header_def)
  have 3: "ProcessIncoming MAGIC q s2 (r2\<lparr>isDone := True, res := -1\<rparr>)
           = Inr (q, s2, r2\<lparr>isDone := True, res := -1\<rparr>)"
    using assms(1,3) 2 by (simp add: ProcessIncoming_def pi_accept_def header_word_def)
  from 1 3 ge rest show ?thesis by simp
qed

theorem magic_gating_witness:
  "ProcessIncoming 0x10102010 idle_queue (plain_sock (replicate 30 0xDE) []) (new_request [])
     = Inr (idle_queue, plain_sock (replicate 6 0xDE) [],
            (new_request [])\<lparr>header := replicate 24 0xDE, num_bytes := 24, isDone := True, res := -1\<rparr>)"
proof -
  have a: "\<not> listening idle_queue" by (simp add: idle_queue_def)
  have b: "pi_header (plain_sock (replicate 30 0xDE) []) (new_request [])
           = Continue (plain_sock (replicate 6 0xDE) [], (new_request [])\<lparr>header := replicate 24 0xDE, num_bytes := 24\<rparr>)"
    by code_simp
  have c: "header_word ((new_request [])\<lparr>header := replicate 24 0xDE, num_bytes := 24\<rparr>) 0 \<noteq> 0x10102010"
    by code_simp
  from magic_gating[OF a b c] show ?thesis by simp
qed

text \<open>
  Claim C5. \<open>peek\<close> decodes into a request of its own and drops that request when it
  is not done. Here the stream holds the first three bytes of a frame: \<open>peek\<close> returns
  0 and parks nothing, but the three bytes have left the stream and are in no request,
  so the frame they began can no longer be decoded.
\<close>

theorem peek_discards_partial_frame:
  "peek MAGIC [] idle_queue (plain_sock [0x10, 0x20, 0x10] []) = Inr (0, idle_queue, plain_sock [] [])"
  by (simp add: peek_def ProcessIncoming_def pi_accept_def pi_header_def mtcp_read_def idle_queue_def
      plain_sock_def new_request_def Let_def)

text \<open>When the read would block, \<open>peek\<close> does leave everything as it was.\<close>

lemma peek_would_block:
  "\<not> listening q \<Longrightarrow> rx s = [] \<Longrightarrow> rd_plan s = [] \<Longrightarrow> peek MAGIC sg q s = Inr (0, q, s)"
  by (simp add: peek_def ProcessIncoming_def pi_accept_def pi_header_def mtcp_read_def new_request_def)

subsection \<open>The pending map\<close>

lemma ProcessOutgoing_done_mono:
  "ProcessOutgoing MAGIC s r = Inr (s', r') \<Longrightarrow> isDone r \<Longrightarrow> isDone r'"
  by (auto simp: ProcessOutgoing_def Let_def split: prod.splits io_result.splits if_splits)

lemma pi_accept_Return_done:
  "pi_accept q s r = Return (q', s', r') \<Longrightarrow> isDone r \<Longrightarrow> isDone r'"
  by (auto simp: pi_accept_def split: if_splits prod.splits accept_event.splits)

lemma pi_accept_Continue_done:
  "pi_accept q s r = Continue (q', s', r') \<Longrightarrow> isDone r \<Longrightarrow> isDone r'"
  by (auto simp: pi_accept_def split: if_splits prod.splits accept_event.splits)

lemma pi_header_Return_done:
  "pi_header s r = Return (s', r') \<Longrightarrow> isDone r \<Longrightarrow> isDone r'"
  by (auto simp: pi_header_def Let_def split: if_splits prod.splits io_result.splits)

lemma pi_header_Continue_done:
  "pi_header s r = Continue (s', r') \<Longrightarrow> isDone r \<Longrightarrow> isDone r'"
  by (auto simp: pi_header_def Let_def split: if_splits prod.splits io_result.splits)

lemma pi_payload_Return_done:
  "pi_payload n s r = Return (s', r') \<Longrightarrow> isDone r \<Longrightarrow> isDone r'"
  by (auto simp: pi_payload_def Let_def split: if_splits prod.splits io_result.splits)

lemma pi_fill_done: "pi_fill n r = Inr r' \<Longrightarrow> isDone r'"
  by (auto simp: pi_fill_def Let_def split: if_splits sum.splits)

lemma ProcessIncoming_done_mono:
  assumes "ProcessIncoming MAGIC q s r = Inr (q', s', r')" and "isDone r"
  shows "isDone r'"
proof (cases "pi_accept q s r")
  case (Return x)
  with assms show ?thesis
    by (auto simp: ProcessIncoming_def dest: pi_accept_Return_done)
next
  case (Continue x)
  obtain q1 s1 r1 where x: "x = (q1, s1, r1)" by (cases x)
  with Continue assms(2) have d1: "isDone r1" by (auto dest: pi_accept_Continue_done)
  show ?thesis
  proof (cases "pi_header s1 r1")
    case (Return y)
    with Continue x assms(1) d1 show ?thesis
      by (auto simp: ProcessIncoming_def dest: pi_header_Return_done)
  next
    case C2: (Continue y)
    obtain s2 r2 where y: "y = (s2, r2)" by (cases y)
    with C2 d1 have d2: "isDone r2" by (auto dest: pi_header_Continue_done)
    from Continue x C2 y assms(1) d2 show ?thesis
      by (auto simp: ProcessIncoming_def Let_def
               split: flow.splits prod.splits sum.splits if_splits
               dest: pi_fill_done pi_payload_Return_done)
  qed
qed

lemma dispatch_done_mono:
  "dispatch MAGIC qt q s r = Inr (q', s', r') \<Longrightarrow> isDone r \<Longrightarrow> isDone r'"
  by (auto simp: dispatch_def split: if_splits sum.splits
      dest: ProcessIncoming_done_mono ProcessOutgoing_done_mono)

lemma keeps_entries_refl: "keeps_entries q q"
  by (simp add: keeps_entries_def)

lemma keeps_entries_trans: "keeps_entries q q1 \<Longrightarrow> keeps_entries q1 q2 \<Longrightarrow> keeps_entries q q2"
  unfolding keeps_entries_def by (metis)

lemma ProcessQ_keeps_entries:
  "ProcessQ MAGIC n q s = Inr (q', s') \<Longrightarrow> keeps_entries q q'"
proof (induction n arbitrary: q s)
  case 0
  then show ?case by (simp add: keeps_entries_refl)
next
  case (Suc n)
  show ?case
  proof (cases "workQ q")
    case Nil
    with Suc.prems show ?thesis by (simp add: keeps_entries_refl)
  next
    case (Cons qt rest)
    note wq = this
    show ?thesis
    proof (cases "pending q qt")
      case None
      with wq Suc.prems have "ProcessQ MAGIC n (q\<lparr>workQ := rest\<rparr>) s = Inr (q', s')" by simp
      from Suc.IH[OF this] show ?thesis by (simp add: keeps_entries_def)
    next
      case (Some req)
      note pq = this
      show ?thesis
      proof (cases "dispatch MAGIC qt q s req")
        case (Inl e)
        with wq pq Suc.prems show ?thesis by simp
      next
        case (Inr x)
        obtain q1 s1 req1 where x: "x = (q1, s1, req1)" by (cases x)
        from Inr x have q1: "q1 = q\<lparr>accepts := accepts q1\<rparr>" by (auto dest: dispatch_queue)
        then have pq1: "pending q1 = pending q" by (metis MTCPQueue.select_convs(6) MTCPQueue.surjective MTCPQueue.update_convs(4))
        define q2 where "q2 = q1\<lparr>pending := (pending q1)(qt \<mapsto> req1)\<rparr>"
        define q3 where "q3 = (if isDone req1 then q2\<lparr>workQ := tl (workQ q2)\<rparr> else q2)"
        have p3: "pending q3 = (pending q)(qt \<mapsto> req1)" by (simp add: q3_def q2_def pq1)
        from Inr x dispatch_done_mono have mono: "isDone req \<Longrightarrow> isDone req1" by blast
        have k1: "keeps_entries q q3"
          unfolding keeps_entries_def using p3 pq mono by (auto split: if_splits)
        from Inr x wq pq Suc.prems have "ProcessQ MAGIC n q3 s1 = Inr (q', s')"
          by (cases "isDone req1") (simp_all add: q3_def q2_def Let_def)
        from Suc.IH[OF this] k1 show ?thesis by (rule keeps_entries_trans[rotated])
      qed
    qed
  qed
qed

lemma wait_loop_keeps_entries:
  "wait_loop fuel MAGIC qt q s = Some (Inr (ret, q', s')) \<Longrightarrow>
     keeps_entries q q' \<and> (\<exists>r'. pending q' qt = Some r' \<and> isDone r' \<and> ret = res r')"
proof (induction fuel arbitrary: q s)
  case 0
  then show ?case by simp
next
  case (Suc fuel)
  show ?case
  proof (cases "pending q qt")
    case None
    with Suc.prems show ?thesis by simp
  next
    case (Some r)
    show ?thesis
    proof (cases "isDone r")
      case True
      with Some Suc.prems show ?thesis by (auto simp: keeps_entries_refl)
    next
      case False
      with Some Suc.prems obtain q1 s1 where a: "ProcessQ MAGIC 1 q s = Inr (q1, s1)"
         and b: "wait_loop fuel MAGIC qt q1 s1 = Some (Inr (ret, q', s'))"
        by (auto split: sum.splits)
      from ProcessQ_keeps_entries[OF a] Suc.IH[OF b] show ?thesis
        by (auto intro: keeps_entries_trans)
    qed
  qed
qed

text \<open>
  Claim C4, as the code has it. A request that is done stays done: no progress step
  (\<open>ProcessQ\<close> with any bound) turns \<open>isDone\<close> back to false, so the flag goes from
  false to true at most once. The pending map never loses an entry: \<open>ProcessQ\<close> keeps
  its tokens, \<open>poll\<close> returns the queue as it got it, with the entry of its token
  still there, and when \<open>wait\<close> returns, the entry of its token is still in the map,
  done, with the result that \<open>wait\<close> returned. The stream backend has no \<open>drop\<close>.
\<close>

theorem pending_entry_lifecycle:
  "(\<forall>q' s'. ProcessQ MAGIC n q s = Inr (q', s') \<longrightarrow> keeps_entries q q') \<and>
   (\<forall>ret sg' q'. poll qt sg q = Inr (ret, sg', q') \<longrightarrow> q' = q \<and> qt \<in> dom (pending q')) \<and>
   (\<forall>ret q' s'. wait fuel MAGIC qt q s = Some (Inr (ret, q', s')) \<longrightarrow>
       keeps_entries q q' \<and> (\<exists>r'. pending q' qt = Some r' \<and> isDone r' \<and> ret = res r'))"
proof (intro conjI allI impI)
  fix q' s' assume "ProcessQ MAGIC n q s = Inr (q', s')"
  then show "keeps_entries q q'" by (rule ProcessQ_keeps_entries)
next
  fix ret sg' q' assume "poll qt sg q = Inr (ret, sg', q')"
  then show "q' = q" by (auto simp: poll_def split: option.splits if_splits)
next
  fix ret sg' q' assume "poll qt sg q = Inr (ret, sg', q')"
  then show "qt \<in> dom (pending q')" by (auto simp: poll_def split: option.splits if_splits)
next
  fix ret q' s' assume "wait fuel MAGIC qt q s = Some (Inr (ret, q', s'))"
  then have "wait_loop fuel MAGIC qt q s = Some (Inr (ret, q', s'))"
    by (auto simp: wait_def split: option.splits)
  from wait_loop_keeps_entries[OF this] show "keeps_entries q q'" and "\<exists>r'. pending q' qt = Some r' \<and> isDone r' \<and> ret = res r'"
    by blast+
qed


theorem pending_entry_lifecycle_witness:
  "poll 2 [] done_queue = Inr (10, [], done_queue) \<and> 2 \<in> dom (pending done_queue) \<and>
   wait 1 0x10102010 2 done_queue (plain_sock [] []) = Some (Inr (10, done_queue, plain_sock [] [])) \<and>
   ProcessQ 0x10102010 1 done_queue (plain_sock [] []) = Inr (done_queue, plain_sock [] []) \<and>
   keeps_entries done_queue done_queue"
proof -
  have p: "poll 2 [] done_queue = Inr (10, [], done_queue)"
    by (simp add: poll_def done_queue_def new_request_def)
  have w: "wait 1 0x10102010 2 done_queue (plain_sock [] []) = Some (Inr (10, done_queue, plain_sock [] []))"
    by (simp add: wait_def done_queue_def new_request_def)
  have q: "ProcessQ 0x10102010 1 done_queue (plain_sock [] []) = Inr (done_queue, plain_sock [] [])"
    by (simp add: done_queue_def idle_queue_def)
  from pending_entry_lifecycle[of "0x10102010" 1 done_queue "plain_sock [] []" 2 "[]" 1] p w q
  show ?thesis by blast
qed

text \<open>
  The claim as stated, that the entry is removed by the next \<open>wait\<close> or \<open>poll\<close> naming
  the token, fails: a pop with token 2 is parked, its frame arrives and a progress
  step completes it; \<open>poll\<close> returns 10 and the received array, and the entry is still
  in the pending map, also after a following \<open>wait\<close>.
\<close>

theorem poll_keeps_entry_counterexample:
  "(case Enqueue 0x10102010 2 [] idle_queue (plain_sock [] []) of
      Inr (ret0, q1, s1) \<Rightarrow>
        ret0 = 0 \<and>
        (case ProcessQ 0x10102010 1 q1 (plain_sock (one_frame 0x10102010 [[1,2,3,4,5,6,7,8,9,10]]) []) of
           Inr (q2, s2) \<Rightarrow>
             (case poll 2 [] q2 of
                Inr (ret, sg, q3) \<Rightarrow>
                  ret = 10 \<and> sg = [[1,2,3,4,5,6,7,8,9,10]] \<and> pending q3 2 \<noteq> None \<and>
                  (case wait 1 0x10102010 2 q3 s2 of
                     Some (Inr (ret', q4, s4)) \<Rightarrow> ret' = 10 \<and> pending q4 2 \<noteq> None
                   | _ \<Rightarrow> False)
              | Inl _ \<Rightarrow> False)
         | Inl _ \<Rightarrow> False)
    | Inl _ \<Rightarrow> False)"
  by code_simp

subsection \<open>The result of a completed request\<close>

lemma fill_sga_length: "fill_sga n p = Inr segs \<Longrightarrow> length segs = n"
  by (induction n arbitrary: p segs) (auto simp: Let_def split: if_splits sum.splits)

lemma pi_fill_result:
  "pi_fill n r = Inr r' \<Longrightarrow> length (sga r') = 1 \<and> res r' = int (sum_list (map length (sga r')))"
  by (auto simp: pi_fill_def Let_def split: if_splits sum.splits dest: fill_sga_length)

lemma pi_header_Return_res:
  "pi_header s r = Return (s', r') \<Longrightarrow> isDone r' \<Longrightarrow> isDone r \<or> res r' = -1"
  by (auto simp: pi_header_def Let_def split: if_splits prod.splits io_result.splits)

lemma pi_payload_Return_res:
  "pi_payload n s r = Return (s', r') \<Longrightarrow> isDone r' \<Longrightarrow> isDone r \<or> res r' = -1"
  by (auto simp: pi_payload_def Let_def split: if_splits prod.splits io_result.splits)

lemma ProcessOutgoing_result:
  "ProcessOutgoing MAGIC s r = Inr (s', r') \<Longrightarrow> \<not> isDone r \<Longrightarrow> isDone r' \<Longrightarrow> 0 \<le> res r' \<Longrightarrow>
     sga r' = sga r \<and> res r' = int (sum_list (map length (sga r)))"
  by (auto simp: ProcessOutgoing_def Let_def split: prod.splits io_result.splits if_splits)

lemma ProcessIncoming_result:
  assumes "\<not> listening q" "ProcessIncoming MAGIC q s r = Inr (q', s', r')" "\<not> isDone r" "isDone r'" "0 \<le> res r'"
  shows "length (sga r') = 1 \<and> res r' = int (sum_list (map length (sga r')))"
proof (cases "pi_header s r")
  case (Return y)
  with assms show ?thesis
    by (auto simp: ProcessIncoming_def pi_accept_def dest: pi_header_Return_res)
next
  case (Continue y)
  obtain s2 r2 where y: "y = (s2, r2)" by (cases y)
  from Continue y have d2: "\<not> isDone r2" using pi_header_Continue[of s r s2 r2] assms(3) by simp
  from Continue y assms d2 show ?thesis
    by (auto simp: ProcessIncoming_def pi_accept_def Let_def
             split: flow.splits prod.splits sum.splits if_splits
             dest: pi_fill_result pi_payload_Return_res)
qed

text \<open>
  Claim C7, as the code has it. A push that completes successfully (done, with a
  result that is not negative) has as result the sum of the lengths of its segments:
  the payload bytes, without the 24 header bytes and the 8-byte length cells. A pop on
  a connected queue that completes successfully has received exactly one segment, and
  its result is the sum of the lengths of the received segments.
\<close>

theorem completion_result_is_payload_count:
  "(\<forall>s' r'. ProcessOutgoing MAGIC s r = Inr (s', r') \<and> \<not> isDone r \<and> isDone r' \<and> 0 \<le> res r' \<longrightarrow>
        sga r' = sga r \<and> res r' = int (sum_list (map length (sga r')))) \<and>
   (\<forall>q' s' r'. \<not> listening q \<and> ProcessIncoming MAGIC q s r = Inr (q', s', r') \<and>
        \<not> isDone r \<and> isDone r' \<and> 0 \<le> res r' \<longrightarrow>
        length (sga r') = 1 \<and> res r' = int (sum_list (map length (sga r'))))"
  using ProcessOutgoing_result[of MAGIC s r] ProcessIncoming_result[of q MAGIC s r]
  by auto

text \<open>The push of the segments \<open>hello\<close> and \<open>world\<close> completes with result 10, and so
  does the pop of the one segment \<open>hello @ world\<close>.\<close>

theorem completion_result_is_payload_count_witness:
  "ProcessOutgoing 0x10102010 (plain_sock [] []) (new_request [hello, world])
     = Inr ((plain_sock [] [])\<lparr>tx := one_frame 0x10102010 [hello, world]\<rparr>,
            (new_request [hello, world])\<lparr>header := out_header 0x10102010 [hello, world],
               num_bytes := 50, res := 10, isDone := True\<rparr>) \<and>
   int (sum_list (map length [hello, world])) = 10 \<and>
   (case ProcessIncoming 0x10102010 idle_queue
           (plain_sock (one_frame 0x10102010 [hello @ world]) []) (new_request []) of
      Inr (q', s', r') \<Rightarrow>
        isDone r' \<and> sga r' = [hello @ world] \<and> res r' = 10 \<and>
        res r' = int (sum_list (map length (sga r')))
    | Inl _ \<Rightarrow> False)"
proof -
  define s1 where "s1 = (plain_sock [] [])\<lparr>tx := one_frame 0x10102010 [hello, world]\<rparr>"
  define r1 where "r1 = (new_request [hello, world])\<lparr>header := out_header 0x10102010 [hello, world],
               num_bytes := 50, res := 10, isDone := True\<rparr>"
  define r2 where "r2 = (new_request [])\<lparr>header := out_header 0x10102010 [hello @ world],
               buf := Some (le_bytes 8 (10 :: u64) @ hello @ world), num_bytes := 42,
               sga := [hello @ world], isDone := True, res := 10\<rparr>"
  have a: "ProcessOutgoing 0x10102010 (plain_sock [] []) (new_request [hello, world]) = Inr (s1, r1)"
    unfolding s1_def r1_def by code_simp
  have "(case ProcessIncoming 0x10102010 idle_queue
           (plain_sock (one_frame 0x10102010 [hello @ world]) []) (new_request []) of
          Inr (q', s', r') \<Rightarrow> r' = r2 | Inl _ \<Rightarrow> False)"
    unfolding r2_def by code_simp
  then obtain q' s' where b: "ProcessIncoming 0x10102010 idle_queue
           (plain_sock (one_frame 0x10102010 [hello @ world]) []) (new_request []) = Inr (q', s', r2)"
    by (auto split: sum.splits)
  have c: "\<not> isDone (new_request [hello, world])" "isDone r1" "0 \<le> res r1"
    "\<not> isDone (new_request [])" "isDone r2" "0 \<le> res r2" "\<not> listening idle_queue"
    "sga r1 = [hello, world]" "sga r2 = [hello @ world]" "res r2 = 10"
    by (simp_all add: new_request_def r1_def r2_def idle_queue_def)
  from completion_result_is_payload_count[of "0x10102010" "plain_sock [] []" "new_request [hello, world]" idle_queue]
    a c
  have d: "res r1 = int (sum_list (map length [hello, world]))" by auto
  from completion_result_is_payload_count[of "0x10102010" "plain_sock (one_frame 0x10102010 [hello @ world]) []" "new_request []" idle_queue]
    b c
  have e: "res r2 = int (sum_list (map length (sga r2)))" by auto
  have f: "int (sum_list (map length [hello, world])) = 10" by (simp add: hello_def world_def)
  from a b c d e f show ?thesis by (simp add: s1_def r1_def)
qed

text \<open>
  The example of the claim fails on the pop side: the push of \<open>hello\<close> and \<open>world\<close>
  completes with result 10, and the pop that receives this frame does not complete with
  result 10: it stops at the assertion \<open>num_bufs == 1\<close>.
\<close>

theorem matching_pop_aborts_counterexample:
  "(case ProcessOutgoing 0x10102010 (plain_sock [] []) (new_request [hello, world]) of
      Inr (sender', r_push) \<Rightarrow>
        isDone r_push \<and> res r_push = 10 \<and>
        (case ProcessIncoming 0x10102010 idle_queue (plain_sock (tx sender') []) (new_request []) of
           Inl AssertFailed \<Rightarrow> True
         | _ \<Rightarrow> False)
    | Inl _ \<Rightarrow> False)"
  by code_simp


subsection \<open>The round trip of a frame over the stream\<close>

lemma length_le_bytes [simp]: "length (le_bytes n w) = n"
  by (induction n arbitrary: w) auto

lemma le_word_le_bytes_u64 [simp]: "le_word (le_bytes 8 (w :: u64)) = w"
  by (simp add: le_word_le_bytes take_bit_word_eq_self)

lemma length_out_header [simp]: "length (out_header MAGIC sg) = 24"
  by (simp add: out_header_def)

lemma out_header_words:
  assumes "header r = out_header MAGIC sg"
  shows "header_word r 0 = MAGIC"
    and "header_word r 1 = word_of_nat (sum_list (map (\<lambda>b. length b + 8) sg))"
    and "header_word r (Suc 0) = word_of_nat (sum_list (map (\<lambda>b. length b + 8) sg))"
    and "header_word r 2 = word_of_nat (length sg)"
  using assms by (simp_all add: header_word_def out_header_def)

lemma mtcp_read_progress:
  assumes "list_all delivers (rd_plan s)" and "rx s \<noteq> []" and "0 < n"
  shows "\<exists>k s'. mtcp_read s n = (Count (take k (rx s)), s') \<and> 0 < k \<and> k \<le> n \<and> k \<le> length (rx s) \<and>
           rx s' = drop k (rx s) \<and> list_all delivers (rd_plan s')"
proof (cases "rd_plan s")
  case Nil
  define k where "k = min n (length (rx s))"
  have "mtcp_read s n = (Count (take k (rx s)), s\<lparr>rx := drop k (rx s)\<rparr>)"
    using Nil assms(2) by (simp add: mtcp_read_def k_def min_def)
  moreover have "0 < k" "k \<le> n" "k \<le> length (rx s)" using assms by (simp_all add: k_def)
  ultimately show ?thesis using assms(1) by auto
next
  case (Cons e p)
  with assms(1) obtain j where e: "e = Deliver j" and j: "0 < j" and p: "list_all delivers p"
    by (cases e) auto
  define k where "k = min (min j n) (length (rx s))"
  have "mtcp_read s n = (Count (take k (rx s)), s\<lparr>rx := drop k (rx s), rd_plan := p\<rparr>)"
    using Cons e by (simp add: mtcp_read_def k_def min_def)
  moreover have "0 < k" "k \<le> n" "k \<le> length (rx s)" using assms j by (simp_all add: k_def)
  ultimately show ?thesis using p by auto
qed

lemma fill_sga_one:
  assumes "length seg < 2 ^ 64"
  shows "fill_sga (Suc 0) (le_bytes 8 (word_of_nat (length seg) :: u64) @ seg) = Inr [seg]"
proof -
  have "unat (word_of_nat (length seg) :: u64) = length seg"
    using assms by (simp add: unat_of_nat)
  then show ?thesis by (simp add: Let_def)
qed

lemma pi_fill_one:
  assumes "length seg + 8 < 2 ^ 64" and "header r = out_header MAGIC [seg]"
    and "buf r = Some (le_bytes 8 (word_of_nat (length seg) :: u64) @ seg)"
  shows "pi_fill (length seg + 8) r = Inr (r\<lparr>sga := [seg], isDone := True, res := int (length seg)\<rparr>)"
proof -
  have nb: "sint (ucast (header_word r 2) :: u32) = 1"
    using out_header_words(4)[OF assms(2)] by simp
  have fs: "fill_sga (Suc 0) (le_bytes 8 (word_of_nat (length seg) :: u64) @ seg) = Inr [seg]"
    using assms(1) by (intro fill_sga_one) simp
  show ?thesis
    unfolding pi_fill_def nb using fs assms(3) by (simp add: Let_def)
qed


lemma write_at_prefix:
  assumes "take n m = take n src" and "n + k \<le> length m" and "length m = length src"
  shows "take (n + k) (write_at m n (take k (drop n src))) = take (n + k) src"
    and "length (write_at m n (take k (drop n src))) = length m"
proof -
  have lk: "length (take k (drop n src)) = k" using assms by simp
  have "take (n + k) (write_at m n (take k (drop n src))) = take n m @ take k (drop n src)"
    using assms lk by (simp add: write_at_def)
  also have "\<dots> = take (n + k) src" using assms(1) by (simp add: take_add)
  finally show "take (n + k) (write_at m n (take k (drop n src))) = take (n + k) src" .
  show "length (write_at m n (take k (drop n src))) = length m"
    using assms lk by (simp add: write_at_def)
qed

lemma header_step:
  assumes inv: "decoding hdr pay rest s r" and lh: "length hdr = 24" and lt: "num_bytes r < 24"
  shows "(\<exists>s' r'. pi_header s r = Return (s', r') \<and> decoding hdr pay rest s' r' \<and>
                   num_bytes r < num_bytes r') \<or>
         (\<exists>s' r'. pi_header s r = Continue (s', r') \<and> num_bytes r' = 24 \<and> header r' = hdr \<and>
                   buf r' = None \<and> \<not> isDone r' \<and> rx s' = pay @ rest \<and>
                   list_all delivers (rd_plan s'))"
proof -
  define n where "n = num_bytes r"
  from inv have rx: "rx s = drop n hdr @ pay @ rest" and gp: "list_all delivers (rd_plan s)"
    and nd: "\<not> isDone r" and lhr: "length (header r) = 24"
    and pre: "take n (header r) = take n hdr" and bn: "buf r = None"
    using lt lh by (simp_all add: decoding_def n_def min_def)
  have ne: "rx s \<noteq> []" using rx lh lt by (simp add: n_def)
  from mtcp_read_progress[OF gp ne, of "24 - n"] lt
  obtain k s' where rd: "mtcp_read s (24 - n) = (Count (take k (rx s)), s')"
    and k: "0 < k" "k \<le> 24 - n" and rx': "rx s' = drop k (rx s)"
    and gp': "list_all delivers (rd_plan s')"
    by (auto simp: n_def)
  have bs: "take k (rx s) = take k (drop n hdr)" using rx k lh by simp
  define r' where "r' = r\<lparr>header := write_at (header r) n (take k (drop n hdr)),
                           num_bytes := n + k\<rparr>"
  have hp: "take (n + k) (header r') = take (n + k) hdr" and hl: "length (header r') = 24"
    using write_at_prefix[OF pre, of k] k lhr lh by (simp_all add: r'_def)
  have rx2: "rx s' = drop (n + k) hdr @ pay @ rest"
    using rx' rx k lh by (simp add: add.commute)
  show ?thesis
  proof (cases "n + k < 24")
    case True
    have "pi_header s r = Return (s', r')"
      using rd lt True bs lh k by (simp add: pi_header_def n_def[symmetric] r'_def Let_def)
    moreover have "decoding hdr pay rest s' r'"
      using True rx2 gp' nd hl hp bn lh by (simp add: decoding_def r'_def min_def)
    moreover have "num_bytes r < num_bytes r'" using k by (simp add: r'_def n_def)
    ultimately show ?thesis by blast
  next
    case False
    with k have eq: "n + k = 24" by simp
    have "pi_header s r = Continue (s', r')"
      using rd lt eq bs lh k by (simp add: pi_header_def n_def[symmetric] r'_def Let_def)
    moreover have "header r' = hdr" using hp hl lh eq by simp
    moreover have "rx s' = pay @ rest" using rx2 eq lh by simp
    ultimately show ?thesis using eq bn nd gp' by (auto simp: r'_def)
  qed
qed

lemma payload_step:
  assumes n: "24 \<le> num_bytes r" "num_bytes r < 24 + length pay" and lh: "length hdr = 24"
    and big: "24 + length pay < 2 ^ 64"
    and hr: "header r = hdr" and bm: "buf r = Some m" and lm: "length m = length pay"
    and pre: "take (num_bytes r - 24) m = take (num_bytes r - 24) pay"
    and rx: "rx s = drop (num_bytes r - 24) pay @ rest"
    and gp: "list_all delivers (rd_plan s)" and nd: "\<not> isDone r"
  shows "(\<exists>s' r'. pi_payload (length pay) s r = Return (s', r') \<and> decoding hdr pay rest s' r' \<and>
                   num_bytes r < num_bytes r') \<or>
         (\<exists>s'. pi_payload (length pay) s r
                  = Continue (s', r\<lparr>buf := Some pay, num_bytes := 24 + length pay\<rparr>) \<and>
               rx s' = rest)"
proof -
  define off where "off = num_bytes r - 24"
  have nb: "num_bytes r = 24 + off" and ol: "off < length pay" using n by (simp_all add: off_def)
  have ne: "rx s \<noteq> []" using rx ol by (simp add: off_def)
  from mtcp_read_progress[OF gp ne, of "length pay - off"] ol
  obtain k s' where rd: "mtcp_read s (length pay - off) = (Count (take k (rx s)), s')"
    and k: "0 < k" "k \<le> length pay - off" and rx': "rx s' = drop k (rx s)"
    and gp': "list_all delivers (rd_plan s')"
    by auto
  have bs: "take k (rx s) = take k (drop off pay)" using rx k by (simp add: off_def)
  define m' where "m' = write_at m off (take k (drop off pay))"
  define r' where "r' = r\<lparr>buf := Some m', num_bytes := 24 + off + k\<rparr>"
  have mp: "take (off + k) m' = take (off + k) pay" and ml: "length m' = length pay"
    using write_at_prefix[of off m pay k] pre k lm by (simp_all add: m'_def off_def)
  have rx2: "rx s' = drop (off + k) pay @ rest"
    using rx' rx k by (simp add: off_def add.commute)
  have lbs: "length (take k (drop off pay)) = k" using k by simp
  have md: "unat (word_of_nat (24 + length pay) :: u64) = 24 + length pay"
    unfolding unat_of_nat using big by simp
  have run: "pi_payload (length pay) s r =
               (if 24 + off + k < 24 + length pay then Return (s', r') else Continue (s', r'))"
    using rd ol bs bm lbs
    unfolding pi_payload_def md
    by (simp add: nb r'_def m'_def Let_def del: length_take)
  show ?thesis
  proof (cases "off + k < length pay")
    case True
    have "decoding hdr pay rest s' r'"
      using True rx2 gp' nd hr lh mp ml by (simp add: decoding_def r'_def)
    moreover have "num_bytes r < num_bytes r'" using k by (simp add: r'_def nb)
    ultimately show ?thesis using run True by auto
  next
    case False
    with k have eq: "off + k = length pay" by simp
    have "m' = pay" using mp ml eq by simp
    then have "r' = r\<lparr>buf := Some pay, num_bytes := 24 + length pay\<rparr>"
      using eq by (simp add: r'_def add.assoc)
    moreover have "rx s' = rest" using rx2 eq by simp
    ultimately show ?thesis using run eq by auto
  qed
qed


lemma ProcessIncoming_after_header:
  assumes "\<not> listening q" and "pi_header s r = Continue (s2, r2)"
    and "header_word r2 0 = MAGIC" and "unat (header_word r2 1) = D"
  shows "ProcessIncoming MAGIC q s r =
           (case pi_payload D s2 (if buf r2 = None then r2\<lparr>buf := Some (replicate D 0)\<rparr> else r2) of
              Return (s4, r4) \<Rightarrow> Inr (q, s4, r4)
            | Continue (s4, r4) \<Rightarrow>
                (case pi_fill D r4 of Inl e \<Rightarrow> Inl e | Inr r5 \<Rightarrow> Inr (q, s4, r5)))"
  using assms by (simp add: ProcessIncoming_def pi_accept_def Let_def)

lemma decode_tail:
  fixes seg :: "byte list"
  defines "pay \<equiv> le_bytes 8 (word_of_nat (length seg) :: u64) @ seg"
  assumes len: "length seg + 32 < 2 ^ 64" and nl: "\<not> listening q"
    and ph: "pi_header s r = Continue (s2, r2)" and le: "num_bytes r \<le> num_bytes r2"
    and hr: "header r2 = out_header MAGIC [seg]"
    and n: "24 \<le> num_bytes r2" "num_bytes r2 < 24 + length pay"
    and nd: "\<not> isDone r2" and gp: "list_all delivers (rd_plan s2)"
    and rx: "rx s2 = drop (num_bytes r2 - 24) pay @ rest"
    and bf: "(buf r2 = None \<and> num_bytes r2 = 24) \<or>
             (\<exists>m. buf r2 = Some m \<and> length m = length pay \<and>
                   take (num_bytes r2 - 24) m = take (num_bytes r2 - 24) pay)"
  shows "(\<exists>s' r'. ProcessIncoming MAGIC q s r = Inr (q, s', r') \<and>
                   decoding (out_header MAGIC [seg]) pay rest s' r' \<and> num_bytes r < num_bytes r') \<or>
         (\<exists>s' r'. ProcessIncoming MAGIC q s r = Inr (q, s', r') \<and> isDone r' \<and> sga r' = [seg] \<and>
                   res r' = int (length seg) \<and> rx s' = rest)"
proof -
  define D where "D = length pay"
  have D: "D = length seg + 8" by (simp add: D_def pay_def)
  define r3 where "r3 = (if buf r2 = None then r2\<lparr>buf := Some (replicate D 0)\<rparr> else r2)"
  have w0: "header_word r2 0 = MAGIC" using out_header_words(1)[OF hr] .
  have u: "unat (word_of_nat (length seg + 8) :: u64) = length seg + 8"
    unfolding unat_of_nat using len by simp
  have "sum_list (map (\<lambda>b. length b + 8) [seg]) = length seg + 8" by simp
  with out_header_words(2)[OF hr] have "header_word r2 1 = word_of_nat (length seg + 8)"
    by (simp only:)
  then have w1: "unat (header_word r2 1) = D" by (simp only: u D)
  have run: "ProcessIncoming MAGIC q s r =
           (case pi_payload D s2 r3 of
              Return (s4, r4) \<Rightarrow> Inr (q, s4, r4)
            | Continue (s4, r4) \<Rightarrow>
                (case pi_fill D r4 of Inl e \<Rightarrow> Inl e | Inr r5 \<Rightarrow> Inr (q, s4, r5)))"
    unfolding r3_def by (rule ProcessIncoming_after_header[OF nl ph w0 w1])
  have n3: "num_bytes r3 = num_bytes r2" and h3: "header r3 = out_header MAGIC [seg]"
    and nd3: "\<not> isDone r3"
    using hr nd by (simp_all add: r3_def)
  obtain m where bm: "buf r3 = Some m" and lm: "length m = length pay"
    and pre: "take (num_bytes r3 - 24) m = take (num_bytes r3 - 24) pay"
    using bf by (auto simp: r3_def D_def)
  have big: "24 + length pay < 2 ^ 64" using len by (simp add: pay_def)
  from payload_step[of r3 pay "out_header MAGIC [seg]" m s2 rest]
    n h3 bm lm pre rx gp nd3 n3 big
  have "(\<exists>s' r'. pi_payload (length pay) s2 r3 = Return (s', r') \<and>
                 decoding (out_header MAGIC [seg]) pay rest s' r' \<and> num_bytes r3 < num_bytes r') \<or>
        (\<exists>s'. pi_payload (length pay) s2 r3
                  = Continue (s', r3\<lparr>buf := Some pay, num_bytes := 24 + length pay\<rparr>) \<and>
               rx s' = rest)"
    by simp
  then show ?thesis
  proof (elim disjE exE conjE)
    fix s' r'
    assume "pi_payload (length pay) s2 r3 = Return (s', r')"
      and "decoding (out_header MAGIC [seg]) pay rest s' r'" and "num_bytes r3 < num_bytes r'"
    then show ?thesis using run le n3 by (auto simp: D_def)
  next
    fix s'
    define r4 where "r4 = r3\<lparr>buf := Some pay, num_bytes := 24 + length pay\<rparr>"
    assume "pi_payload (length pay) s2 r3
              = Continue (s', r3\<lparr>buf := Some pay, num_bytes := 24 + length pay\<rparr>)"
      and rest: "rx s' = rest"
    then have pp: "pi_payload D s2 r3 = Continue (s', r4)" by (simp add: D_def r4_def)
    have "pi_fill (length seg + 8) r4 = Inr (r4\<lparr>sga := [seg], isDone := True, res := int (length seg)\<rparr>)"
      by (rule pi_fill_one) (use len in \<open>simp_all add: r4_def h3 pay_def\<close>)
    then have "ProcessIncoming MAGIC q s r
                 = Inr (q, s', r4\<lparr>sga := [seg], isDone := True, res := int (length seg)\<rparr>)"
      using run pp by (simp add: D)
    then show ?thesis using rest by auto
  qed
qed

lemma decode_step:
  fixes seg :: "byte list"
  defines "pay \<equiv> le_bytes 8 (word_of_nat (length seg) :: u64) @ seg"
  assumes len: "length seg + 32 < 2 ^ 64" and nl: "\<not> listening q"
    and inv: "decoding (out_header MAGIC [seg]) pay rest s r"
  shows "(\<exists>s' r'. ProcessIncoming MAGIC q s r = Inr (q, s', r') \<and>
                   decoding (out_header MAGIC [seg]) pay rest s' r' \<and> num_bytes r < num_bytes r') \<or>
         (\<exists>s' r'. ProcessIncoming MAGIC q s r = Inr (q, s', r') \<and> isDone r' \<and> sga r' = [seg] \<and>
                   res r' = int (length seg) \<and> rx s' = rest)"
proof (cases "num_bytes r < 24")
  case True
  from header_step[OF inv _ True]
  have "(\<exists>s' r'. pi_header s r = Return (s', r') \<and> decoding (out_header MAGIC [seg]) pay rest s' r' \<and>
                   num_bytes r < num_bytes r') \<or>
         (\<exists>s' r'. pi_header s r = Continue (s', r') \<and> num_bytes r' = 24 \<and>
                   header r' = out_header MAGIC [seg] \<and>
                   buf r' = None \<and> \<not> isDone r' \<and> rx s' = pay @ rest \<and>
                   list_all delivers (rd_plan s'))"
    by simp
  then show ?thesis
  proof (elim disjE exE conjE)
    fix s' r'
    assume "pi_header s r = Return (s', r')"
      and "decoding (out_header MAGIC [seg]) pay rest s' r'" and "num_bytes r < num_bytes r'"
    then show ?thesis using nl by (auto simp: ProcessIncoming_def pi_accept_def)
  next
    fix s2 r2
    assume ph: "pi_header s r = Continue (s2, r2)" and n2: "num_bytes r2 = 24"
      and h2: "header r2 = out_header MAGIC [seg]" and b2: "buf r2 = None"
      and nd2: "\<not> isDone r2" and rx2: "rx s2 = pay @ rest" and gp2: "list_all delivers (rd_plan s2)"
    show ?thesis
      unfolding pay_def
      by (rule decode_tail[OF len nl ph _ h2 _ _ nd2 gp2])
         (use True n2 b2 rx2 in \<open>simp_all add: pay_def\<close>)
  qed
next
  case False
  then have ph: "pi_header s r = Continue (s, r)" by (simp add: pi_header_def)
  from False have m: "min (num_bytes r) 24 = 24" by simp
  from inv have "length (header r) = 24 \<and>
      take (min (num_bytes r) 24) (header r) = take (min (num_bytes r) 24) (out_header MAGIC [seg])"
    unfolding decoding_def by blast
  then have h: "header r = out_header MAGIC [seg]" unfolding m
    by (metis length_out_header order_refl take_all)
  from inv False have n: "num_bytes r < 24 + length pay"
    and nd: "\<not> isDone r" and gp: "list_all delivers (rd_plan s)"
    and rx: "rx s = drop (num_bytes r - 24) pay @ rest"
    and bf: "\<exists>m. buf r = Some m \<and> length m = length pay \<and>
                   take (num_bytes r - 24) m = take (num_bytes r - 24) pay"
    by (simp_all add: decoding_def min_def)
  show ?thesis
    unfolding pay_def
    by (rule decode_tail[OF len nl ph _ h _ _ nd gp])
       (use False n rx bf in \<open>simp_all add: pay_def\<close>)
qed

lemma decode_loop_completes:
  fixes seg :: "byte list"
  defines "pay \<equiv> le_bytes 8 (word_of_nat (length seg) :: u64) @ seg"
  assumes len: "length seg + 32 < 2 ^ 64" and nl: "\<not> listening q"
  shows "decoding (out_header MAGIC [seg]) pay rest s r \<Longrightarrow> 24 + length pay - num_bytes r \<le> fuel \<Longrightarrow>
         \<exists>s' r'. decode_loop fuel MAGIC q s r = Some (Inr (q, s', r')) \<and> isDone r' \<and> sga r' = [seg] \<and>
                  res r' = int (length seg) \<and> rx s' = rest"
proof (induction fuel arbitrary: s r)
  case 0
  then show ?case by (simp add: decoding_def)
next
  case (Suc fuel)
  from decode_step[OF len nl, of MAGIC rest s r] Suc.prems(1)
  have "(\<exists>s' r'. ProcessIncoming MAGIC q s r = Inr (q, s', r') \<and>
                   decoding (out_header MAGIC [seg]) pay rest s' r' \<and> num_bytes r < num_bytes r') \<or>
         (\<exists>s' r'. ProcessIncoming MAGIC q s r = Inr (q, s', r') \<and> isDone r' \<and> sga r' = [seg] \<and>
                   res r' = int (length seg) \<and> rx s' = rest)"
    by (simp add: pay_def)
  then show ?case
  proof (elim disjE exE conjE)
    fix s' r'
    assume pi: "ProcessIncoming MAGIC q s r = Inr (q, s', r')"
      and inv': "decoding (out_header MAGIC [seg]) pay rest s' r'" and lt: "num_bytes r < num_bytes r'"
    from inv' have nd: "\<not> isDone r'" by (simp add: decoding_def)
    from lt Suc.prems(2) have "24 + length pay - num_bytes r' \<le> fuel" by simp
    from Suc.IH[OF inv' this] pi nd show ?thesis by simp
  next
    fix s' r'
    assume "ProcessIncoming MAGIC q s r = Inr (q, s', r')" "isDone r'" "sga r' = [seg]"
      "res r' = int (length seg)" "rx s' = rest"
    then show ?thesis by simp
  qed
qed

lemma decoding_start:
  "list_all delivers (rd_plan s) \<Longrightarrow> rx s = one_frame MAGIC [seg] @ rest \<Longrightarrow>
   decoding (out_header MAGIC [seg]) (le_bytes 8 (word_of_nat (length seg) :: u64) @ seg) rest s (new_request sg0)"
  by (simp add: decoding_def new_request_def one_frame_def out_cells_def)

lemma ProcessOutgoing_whole:
  assumes "wr_plan s = []" and "num_bytes r = 0"
  shows "ProcessOutgoing MAGIC s r =
           Inr (s\<lparr>tx := tx s @ one_frame MAGIC (sga r)\<rparr>,
                r\<lparr>header := out_header MAGIC (sga r),
                   num_bytes := length (one_frame MAGIC (sga r)),
                   res := int (sum_list (map length (sga r))), isDone := True\<rparr>)"
proof -
  have "length (concat (out_cells sg)) = sum_list (map (\<lambda>b. length b + 8) sg)" for sg
    by (induction sg) (simp_all add: out_cells_def)
  then have "length (one_frame MAGIC (sga r)) = sum_list (map (\<lambda>b. length b + 8) (sga r)) + 24"
    by (simp add: one_frame_def)
  then show ?thesis
    using assms by (simp add: ProcessOutgoing_def mtcp_writev_def Let_def one_frame_def)
qed

text \<open>
  Claim C1, as the code has it: the round trip of an array of exactly one segment. The
  sender's socket takes the whole frame in one \<open>mtcp_writev\<close>; the receiver's stream
  holds what the sender's socket accepted, possibly followed by more bytes (\<open>rest\<close>);
  every read moves at least one byte, be it one byte per call. Then the push is done,
  and running the decoder on a new request, at most once per byte of the frame, ends
  with the request done, holding one segment with the bytes that were sent, the result
  being their number; the bytes after the frame are still on the stream.
\<close>

theorem stream_round_trip_single_segment:
  assumes "length seg \<le> 65536"
    and "wr_plan sender = []" and "tx sender = []"
    and "ProcessOutgoing MAGIC sender (new_request [seg]) = Inr (sender', r_push)"
    and "rx receiver = tx sender' @ rest" and "list_all delivers (rd_plan receiver)"
    and "\<not> listening q"
  shows "isDone r_push \<and>
         (\<exists>s' r'. decode_loop (length (tx sender')) MAGIC q receiver (new_request sg0)
                     = Some (Inr (q, s', r')) \<and>
                   isDone r' \<and> length (sga r') = 1 \<and> sga r' = [seg] \<and>
                   res r' = int (length seg) \<and> rx s' = rest)"
proof -
  have len: "length seg + 32 < 2 ^ 64" using assms(1) by simp
  from ProcessOutgoing_whole[OF assms(2), of "new_request [seg]" MAGIC] assms(3,4)
  have tx: "tx sender' = one_frame MAGIC [seg]" and d: "isDone r_push"
    by (auto simp: new_request_def)
  have inv: "decoding (out_header MAGIC [seg]) (le_bytes 8 (word_of_nat (length seg) :: u64) @ seg)
               rest receiver (new_request sg0)"
    using assms(5,6) tx by (intro decoding_start) simp_all
  have fuel: "24 + length (le_bytes 8 (word_of_nat (length seg) :: u64) @ seg)
                - num_bytes (new_request sg0) \<le> length (tx sender')"
    by (simp add: tx one_frame_def out_cells_def new_request_def)
  from decode_loop_completes[OF len assms(7) inv fuel] d show ?thesis by auto
qed


text \<open>Ten bytes in one segment, delivered one byte per read.\<close>

theorem stream_round_trip_single_segment_witness:
  "\<exists>s' r'. decode_loop 42 0x10102010 idle_queue
              (plain_sock (one_frame 0x10102010 [ten_bytes]) (replicate 42 (Deliver 1)))
              (new_request [])
            = Some (Inr (idle_queue, s', r')) \<and>
           isDone r' \<and> length (sga r') = 1 \<and> sga r' = [ten_bytes] \<and> res r' = 10 \<and> rx s' = []"
proof -
  define sender' where "sender' = (plain_sock [] [])\<lparr>tx := one_frame 0x10102010 [ten_bytes]\<rparr>"
  define r_push where "r_push = (new_request [ten_bytes])\<lparr>header := out_header 0x10102010 [ten_bytes],
                   num_bytes := length (one_frame 0x10102010 [ten_bytes]),
                   res := int (sum_list (map length [ten_bytes])), isDone := True\<rparr>"
  have 1: "length ten_bytes \<le> 65536" by (simp add: ten_bytes_def)
  have 2: "wr_plan (plain_sock [] []) = []" and 3: "tx (plain_sock [] []) = []"
    by (simp_all add: plain_sock_def)
  have 4: "ProcessOutgoing 0x10102010 (plain_sock [] []) (new_request [ten_bytes]) = Inr (sender', r_push)"
    using ProcessOutgoing_whole[of "plain_sock [] []" "new_request [ten_bytes]" "0x10102010"]
    by (simp add: plain_sock_def new_request_def sender'_def r_push_def)
  have 5: "rx (plain_sock (one_frame 0x10102010 [ten_bytes]) (replicate 42 (Deliver 1))) = tx sender' @ []"
    by (simp add: plain_sock_def sender'_def)
  have 6: "list_all delivers (rd_plan (plain_sock (one_frame 0x10102010 [ten_bytes]) (replicate 42 (Deliver 1))))"
    by (simp add: plain_sock_def list_all_iff)
  have 7: "\<not> listening idle_queue" by (simp add: idle_queue_def)
  have 8: "length (tx sender') = 42"
    by (simp add: sender'_def plain_sock_def one_frame_def out_cells_def ten_bytes_def)
  from stream_round_trip_single_segment[OF 1 2 3 4 5 6 7, of "[]"] 8
  show ?thesis by (simp add: ten_bytes_def)
qed

text \<open>
  With two segments the claim fails: the push completes, and decoding its frame one
  byte at a time ends at the assertion \<open>num_bufs == 1\<close> of \<open>ProcessIncoming\<close>.
\<close>

theorem stream_round_trip_two_segments_counterexample:
  "(case ProcessOutgoing 0x10102010 (plain_sock [] []) (new_request [[1, 2, 3], [4, 5]]) of
      Inr (sender', r_push) \<Rightarrow>
        isDone r_push \<and> res r_push = 5 \<and>
        (case decode_loop 45 0x10102010 idle_queue
                (plain_sock (tx sender') (replicate 45 (Deliver 1))) (new_request []) of
           Some (Inl AssertFailed) \<Rightarrow> True
         | _ \<Rightarrow> False)
    | Inl _ \<Rightarrow> False)"
  by code_simp

subsection \<open>The packet backend\<close>

lemma htons_htons: "htons (htons x) = x"
  unfolding htons_def
  by (rule bit_eqI) (auto simp: bit_simps)

lemma ntohs_htons [simp]: "ntohs (htons x) = x"
  by (simp add: ntohs_def htons_htons)

lemma le_word_le_bytes_u32: "le_word (le_bytes 4 (w :: u32)) = w"
  by (simp add: le_word_le_bytes take_bit_word_eq_self)

lemma recv_segs_send:
  assumes "\<forall>b \<in> set segs. length b < 2 ^ 32"
  shows "recv_segs (length segs)
           (concat (map (\<lambda>b. le_bytes 4 (word_of_nat (length b) :: u32) @ b) segs) @ rest) = Inr segs"
  using assms
proof (induction segs)
  case Nil
  then show ?case by simp
next
  case (Cons b segs)
  then have "unat (word_of_nat (length b) :: u32) = length b"
    by (simp add: unat_of_nat)
  with Cons show ?case
    by (simp add: Let_def le_word_le_bytes_u32)
qed

text \<open>
  Claim C8. On an initialised process whose port is valid, a packet whose destination
  MAC is not that of the local port, or whose ethertype is not IPv4, or whose IP
  destination is not the bound address of a bound queue, or whose protocol is not UDP,
  or whose UDP destination port is not the bound port of a bound queue, makes
  \<open>complete_recv\<close> return 0 with the task as it was: not done, its array untouched.
\<close>

theorem recv_validation_drops:
  assumes "our_dpdk_init_flag e" and "our_dpdk_port_id e = Some port" and "ports e port = Some mac_addr"
    and "d_addr (eth pk) \<noteq> mac_addr \<or>
         ntohs (ether_type (eth pk)) \<noteq> ETHER_TYPE_IPv4 \<or>
         (\<exists>b. my_bound_addr q = Some b \<and> dst_addr (ip pk) \<noteq> sin_addr b) \<or>
         next_proto_id (ip pk) \<noteq> IPPROTO_UDP \<or>
         (\<exists>b. my_bound_addr q = Some b \<and> ntohs (dst_port (udp pk)) \<noteq> sin_port b)"
  shows "complete_recv q t (Some pk) e = Inr (0, t)"
proof -
  from assms(4) have "recv_dropped q mac_addr pk"
    by (auto simp: recv_dropped_def)
  with assms(1-3) show ?thesis by (simp add: complete_recv_def)
qed

text \<open>
  Claim C10. When a send on a queue that is not bound succeeds, the packet put on the
  wire has as UDP source port its UDP destination port, which is \<open>htons\<close> of the port
  of the destination address.
\<close>

theorem unbound_send_source_port:
  assumes "\<not> is_bound q" and "complete_send q t e = Inr (0, t', e')"
  shows "\<exists>saddr pkt. send_saddr q t = Inr (Inr saddr) \<and> wire e' = wire e @ [pkt] \<and>
           dst_port (udp pkt) = htons (sin_port saddr) \<and>
           src_port (udp pkt) = dst_port (udp pkt)"
proof -
  have nz: "send_saddr q t \<noteq> Inr (Inl 0)"
    by (auto simp: send_saddr_def EINVAL_def split: option.splits)
  from assms nz show ?thesis
    by (auto simp: complete_send_def dmtr_u32tou16_def is_bound_def send_udp_hdr_def Let_def
          EPERM_def EINVAL_def ENOMEM_def ERANGE_def EAGAIN_code_def
        split: if_splits option.splits sum.splits)
qed

lemma length_send_payload:
  "length (send_payload segs) = 4 + sum_list (map (\<lambda>b. 4 + length b) segs)"
  by (induction segs) (simp_all add: send_payload_def)

lemma sum_list_bounds:
  "sum_list (map (\<lambda>b. 4 + length b) segs) \<le> n \<Longrightarrow>
     length segs \<le> n \<and> (\<forall>b \<in> set segs. length b \<le> n)"
proof (induction segs arbitrary: n)
  case Nil
  then show ?case by simp
next
  case (Cons b segs)
  from Cons.prems have "sum_list (map (\<lambda>b. 4 + length b) segs) \<le> n - (4 + length b)"
    and "4 + length b \<le> n" by simp_all
  with Cons.IH[of "n - (4 + length b)"] show ?case by auto
qed

lemma recv_fill_send:
  assumes fits: "8 + length (send_payload segs) \<le> 65535"
    and pl: "payload pk = send_payload segs"
    and slot: "sga_addrlen (task_sga t) = 16" "sga_addr (task_sga t) = Some slot"
  shows "recv_fill t pk =
           Inr (0, t\<lparr>task_sga := (task_sga t)
                        \<lparr>sga_segs := segs,
                         sga_addr := Some \<lparr>sin_family = AF_INET,
                                           sin_port = ntohs (src_port (udp pk)),
                                           sin_addr = src_addr (ip pk)\<rparr>\<rparr>,
                      task_done := True, task_error := 0\<rparr>)"
proof -
  from fits have "sum_list (map (\<lambda>b. 4 + length b) segs) \<le> 65535"
    by (simp add: length_send_payload)
  from sum_list_bounds[OF this] have n: "length segs < 2 ^ 32" and b: "\<forall>b \<in> set segs. length b < 2 ^ 32"
    by auto
  have cnt: "unat (le_word (take 4 (payload pk)) :: u32) = length segs"
    using n by (simp add: pl send_payload_def le_word_le_bytes_u32 unat_of_nat)
  have body: "drop 4 (payload pk)
                = concat (map (\<lambda>b. le_bytes 4 (word_of_nat (length b) :: u32) @ b) segs) @ []"
    by (simp add: pl send_payload_def)
  have "recv_segs (length segs) (drop 4 (payload pk)) = Inr segs"
    unfolding body by (rule recv_segs_send[OF b])
  moreover have "\<not> length (payload pk) < 4" by (simp add: pl send_payload_def)
  ultimately show ?thesis
    using slot cnt by (simp add: recv_fill_def Let_def)
qed

text \<open>
  What a transmission followed by a reception gives, for a frame that fits in one
  datagram and a receiver bound to the destination address on the host the table
  gives for it: the segments arrive as they were sent; the address slot receives the
  sender's bound port, or the destination port when the sender is not bound, and
  \<open>htonl\<close> of the sender's bound address, or of the table's address for its MAC.
\<close>

lemma packet_round_trip:
  assumes fits: "8 + length (send_payload (sga_segs (task_sga ts))) \<le> 65535"
    and send: "complete_send qs ts es = Inr (0, ts', es')"
    and sa: "send_saddr qs ts = Inr (Inr saddr)"
    and renv: "our_dpdk_init_flag er" "our_dpdk_port_id er = Some rport"
              "ports er rport = Some (ip_to_mac (htonl (sin_addr saddr)))"
    and bound: "my_bound_addr qr = Some saddr"
    and slot: "sga_addrlen (task_sga tr) = 16" "sga_addr (task_sga tr) = Some slot"
  shows "\<exists>pkt mac. wire es' = wire es @ [pkt] \<and> s_addr (eth pkt) = mac \<and>
           complete_recv qr tr (Some pkt) er =
             Inr (0, tr\<lparr>task_sga := (task_sga tr)
                        \<lparr>sga_segs := sga_segs (task_sga ts),
                         sga_addr := Some \<lparr>sin_family = AF_INET,
                                           sin_port = (case my_bound_addr qs of
                                                         Some a \<Rightarrow> sin_port a
                                                       | None \<Rightarrow> sin_port saddr),
                                           sin_addr = htonl (case my_bound_addr qs of
                                                         Some a \<Rightarrow> sin_addr a
                                                       | None \<Rightarrow> mac_to_ip mac)\<rparr>\<rparr>,
                      task_done := True, task_error := 0\<rparr>)"
proof -
  from send sa obtain pkt where w: "wire es' = wire es @ [pkt]"
    and pl: "payload pkt = send_payload (sga_segs (task_sga ts))"
    and eh: "d_addr (eth pkt) = ip_to_mac (htonl (sin_addr saddr))"
            "ether_type (eth pkt) = htons ETHER_TYPE_IPv4"
    and ih: "dst_addr (ip pkt) = sin_addr saddr" "next_proto_id (ip pkt) = IPPROTO_UDP"
            "src_addr (ip pkt) = htonl (case my_bound_addr qs of
                                          Some a \<Rightarrow> sin_addr a
                                        | None \<Rightarrow> mac_to_ip (s_addr (eth pkt)))"
    and uh: "dst_port (udp pkt) = htons (sin_port saddr)"
            "src_port (udp pkt) = htons (case my_bound_addr qs of
                                           Some a \<Rightarrow> sin_port a
                                         | None \<Rightarrow> sin_port saddr)"
    by (auto simp: complete_send_def dmtr_u32tou16_def Let_def EPERM_def EINVAL_def ENOMEM_def
          ERANGE_def EAGAIN_code_def send_eth_hdr_def send_ip_hdr_def send_udp_hdr_def
        split: if_splits option.splits)
  have nd: "\<not> recv_dropped qr (ip_to_mac (htonl (sin_addr saddr))) pkt"
    using eh ih uh bound by (simp add: recv_dropped_def)
  have "complete_recv qr tr (Some pkt) er = recv_fill tr pkt"
    using renv nd by (simp add: complete_recv_def)
  also note recv_fill_send[OF fits pl slot]
  finally show ?thesis using w ih(3) uh(2) by auto
qed

text \<open>
  Claim C2, at an input where the code departs from it. The sender is bound to
  10.0.0.7 port 9000, the address \<open>0x0700000A\<close> being in network byte order as a
  little-endian host holds it, and sends \<open>ping\<close> to 10.0.0.5 port 9000, where the
  receiver is bound. The segments and the port arrive, and the address slot holds
  \<open>0x0A000007\<close>, the bytes of the sender's address reversed.
\<close>

theorem packet_round_trip_swaps_source_address:
  "\<exists>ts' es' pkt.
     complete_send (bound_queue (inet_addr 0x0700000A 9000))
       (push_task [ping] (inet_addr 0x0500000A 9000)) (nic_env mac_hightent) = Inr (0, ts', es') \<and>
     wire es' = [pkt] \<and>
     complete_recv (bound_queue (inet_addr 0x0500000A 9000)) pop_task (Some pkt) (nic_env mac_cassance)
       = Inr (0, pop_task\<lparr>task_sga := \<lparr>sga_segs = [ping],
                                         sga_addr = Some (inet_addr 0x0A000007 9000),
                                         sga_addrlen = 16\<rparr>,
                           task_done := True, task_error := 0\<rparr>) \<and>
     inet_addr 0x0A000007 9000 \<noteq> inet_addr 0x0700000A 9000"
proof -
  define qs where "qs = bound_queue (inet_addr 0x0700000A 9000)"
  define ts where "ts = push_task [ping] (inet_addr 0x0500000A 9000)"
  have fits: "8 + length (send_payload (sga_segs (task_sga ts))) \<le> 65535"
    by (simp add: length_send_payload ts_def push_task_def ping_def)
  have "(case complete_send qs ts (nic_env mac_hightent) of
           Inr (rc, t', e') \<Rightarrow> rc = 0 | Inl _ \<Rightarrow> False)"
    by (simp add: complete_send_def dmtr_u32tou16_def send_saddr_def length_send_payload
          qs_def ts_def bound_queue_def push_task_def nic_env_def ping_def Let_def)
  then obtain ts' es' where send: "complete_send qs ts (nic_env mac_hightent) = Inr (0, ts', es')"
    by (auto split: sum.splits)
  have sa: "send_saddr qs ts = Inr (Inr (inet_addr 0x0500000A 9000))"
    by (simp add: send_saddr_def qs_def ts_def bound_queue_def push_task_def)
  have mac: "ip_to_mac (htonl (sin_addr (inet_addr 0x0500000A 9000))) = mac_cassance"
    by (simp add: inet_addr_def htonl_def ip_to_mac_def ip_config_def mac_cassance_def)
  have renv: "our_dpdk_init_flag (nic_env mac_cassance)"
    "our_dpdk_port_id (nic_env mac_cassance) = Some 0"
    "ports (nic_env mac_cassance) 0 = Some (ip_to_mac (htonl (sin_addr (inet_addr 0x0500000A 9000))))"
    by (simp_all add: nic_env_def mac)
  have bound: "my_bound_addr (bound_queue (inet_addr 0x0500000A 9000)) = Some (inet_addr 0x0500000A 9000)"
    by (simp add: bound_queue_def)
  have slot: "sga_addrlen (task_sga pop_task) = 16" "sga_addr (task_sga pop_task) = Some (inet_addr 0 0)"
    by (simp_all add: pop_task_def)
  have sw: "htonl 0x0700000A = 0x0A000007" by (simp add: htonl_def)
  from packet_round_trip[OF fits send sa renv bound slot]
  obtain pkt where "wire es' = wire (nic_env mac_hightent) @ [pkt]"
    and "complete_recv (bound_queue (inet_addr 0x0500000A 9000)) pop_task (Some pkt) (nic_env mac_cassance)
       = Inr (0, pop_task\<lparr>task_sga := \<lparr>sga_segs = [ping],
                                         sga_addr = Some (inet_addr 0x0A000007 9000),
                                         sga_addrlen = 16\<rparr>,
                           task_done := True, task_error := 0\<rparr>)"
    by (auto simp: qs_def ts_def bound_queue_def push_task_def pop_task_def inet_addr_def sw AF_INET_def)
  moreover have "wire (nic_env mac_hightent) = []" by (simp add: nic_env_def)
  moreover have "inet_addr 0x0A000007 9000 \<noteq> inet_addr 0x0700000A 9000"
    by (simp add: inet_addr_def)
  ultimately show ?thesis using send by (auto simp: qs_def ts_def)
qed

text \<open>A packet for port 9001 arriving at a queue bound to port 9000.\<close>

theorem recv_validation_drops_witness:
  "complete_recv (bound_queue (inet_addr 0x0500000A 9000)) pop_task (Some wrong_port_pkt)
     (nic_env mac_cassance) = Inr (0, pop_task) \<and>
   ntohs (dst_port (udp wrong_port_pkt)) = 9001 \<and> \<not> task_done pop_task"
proof -
  have 1: "our_dpdk_init_flag (nic_env mac_cassance)"
    and 2: "our_dpdk_port_id (nic_env mac_cassance) = Some 0"
    and 3: "ports (nic_env mac_cassance) 0 = Some mac_cassance"
    by (simp_all add: nic_env_def)
  have p: "ntohs (dst_port (udp wrong_port_pkt)) = 9001"
    by (simp add: wrong_port_pkt_def send_udp_hdr_def unbound_queue_def inet_addr_def Let_def)
  have b: "my_bound_addr (bound_queue (inet_addr 0x0500000A 9000)) = Some (inet_addr 0x0500000A 9000)"
    "sin_port (inet_addr 0x0500000A 9000) = 9000"
    by (simp_all add: bound_queue_def inet_addr_def)
  have 4: "d_addr (eth wrong_port_pkt) \<noteq> mac_cassance \<or>
         ntohs (ether_type (eth wrong_port_pkt)) \<noteq> ETHER_TYPE_IPv4 \<or>
         (\<exists>b. my_bound_addr (bound_queue (inet_addr 0x0500000A 9000)) = Some b \<and>
              dst_addr (ip wrong_port_pkt) \<noteq> sin_addr b) \<or>
         next_proto_id (ip wrong_port_pkt) \<noteq> IPPROTO_UDP \<or>
         (\<exists>b. my_bound_addr (bound_queue (inet_addr 0x0500000A 9000)) = Some b \<and>
              ntohs (dst_port (udp wrong_port_pkt)) \<noteq> sin_port b)"
    using p b by simp
  have 5: "\<not> task_done pop_task" by (simp add: pop_task_def)
  from recv_validation_drops[OF 1 2 3 4, of pop_task] p 5 show ?thesis by simp
qed

text \<open>An unbound queue sends \<open>ping\<close> to port 9000.\<close>

theorem unbound_send_source_port_witness:
  "\<exists>t' e' pkt. complete_send unbound_queue (push_task [ping] (inet_addr 0x0500000A 9000))
                  (nic_env mac_hightent) = Inr (0, t', e') \<and>
               wire e' = [pkt] \<and> dst_port (udp pkt) = htons 9000 \<and>
               src_port (udp pkt) = htons 9000"
proof -
  have "(case complete_send unbound_queue (push_task [ping] (inet_addr 0x0500000A 9000))
                  (nic_env mac_hightent) of Inr (rc, t', e') \<Rightarrow> rc = 0 | Inl _ \<Rightarrow> False)"
    by (simp add: complete_send_def dmtr_u32tou16_def send_saddr_def send_payload_def
          unbound_queue_def push_task_def nic_env_def ping_def Let_def length_send_payload)
  then obtain t' e' where s: "complete_send unbound_queue (push_task [ping] (inet_addr 0x0500000A 9000))
                  (nic_env mac_hightent) = Inr (0, t', e')"
    by (auto split: sum.splits)
  have u: "\<not> is_bound unbound_queue" by (simp add: is_bound_def unbound_queue_def)
  have a: "send_saddr unbound_queue (push_task [ping] (inet_addr 0x0500000A 9000))
             = Inr (Inr (inet_addr 0x0500000A 9000))"
    by (simp add: send_saddr_def unbound_queue_def push_task_def)
  have w: "wire (nic_env mac_hightent) = []" by (simp add: nic_env_def)
  from unbound_send_source_port[OF u s] a w s show ?thesis
    by (auto simp: inet_addr_def)
qed

end
